theory Spec2Isabelle
  imports Main "HOL-Library.Monad_Syntax"
begin

section \<open>Category API: data model\<close>

text \<open>
  The category model (\<^verbatim>\<open>src/models/category.model.js\<close>) and its controller
  (the category controller, nine request handlers) embedded as HOL functions.  Identifiers
  of the document store (ObjectIds) are natural numbers; a reference that may be
  \<^verbatim>\<open>null\<close> is an \<open>option\<close>.  Request parameters that name a document
  are taken as ObjectIds already.
\<close>

type_synonym oid = nat

text \<open>
  \<^verbatim>\<open>imageSchema\<close>.  The schema declares no \<^verbatim>\<open>id\<close> path and keeps the
  defaults of a sub-schema, so every image that the collection stores has an
  \<^verbatim>\<open>_id\<close>, and \<^verbatim>\<open>img.id\<close> is the string of that \<^verbatim>\<open>_id\<close>.
  \<open>image_oid\<close> is the \<^verbatim>\<open>_id\<close>: \<open>None\<close> on an object that has not been through
  the schema, such as the object literal built from an uploaded file.  The optional
  \<^verbatim>\<open>width\<close> and \<^verbatim>\<open>height\<close> are never read or written by the controller and
  are left out.
\<close>

record image =
  url :: string
  altText :: string
  itype :: string
  image_oid :: "oid option"

text \<open>
  \<^verbatim>\<open>categorySchema\<close>.  The fields \<^verbatim>\<open>ancestors\<close>, \<^verbatim>\<open>metaTitle\<close>,
  \<^verbatim>\<open>metaDescription\<close>, \<^verbatim>\<open>popularityScore\<close>, \<^verbatim>\<open>updatedBy\<close> and the
  timestamps are stored but read by no handler; \<open>description\<close> and \<open>active\<close> stand for
  such pass-through fields.
\<close>

record category =
  cat_id :: oid
  name :: string
  slug :: "string option"
  ctype :: string
  parent :: "oid option"
  description :: "string option"
  active :: bool
  images :: "image list"
  createdBy :: oid

record user =
  user_id :: oid
  user_name :: string
  email :: string

text \<open>A file as the upload middleware hands it over: \<^verbatim>\<open>file.path\<close>, \<^verbatim>\<open>file.fieldname\<close>.\<close>

record upload =
  path :: string
  fieldname :: string

text \<open>
  \<^verbatim>\<open>req.body\<close>: every field may be absent.  \<open>b_altText\<close> is not a field of the
  schema; the schema drops it on every write.
\<close>

record body =
  b_name :: "string option"
  b_slug :: "string option"
  b_ctype :: "string option"
  b_parent :: "oid option option"
  b_description :: "string option"
  b_active :: "bool option"
  b_images :: "image list option"
  b_createdBy :: "oid option"
  b_altText :: "string option"

text \<open>
  What a handler does to the outside world, in the order in which it does it: calls of
  \<^verbatim>\<open>cloudinary.uploader.destroy\<close> and writes to the category collection.
\<close>

datatype effect =
    MediaDestroy string
  | DbInsert oid
  | DbUpdate oid
  | DbDelete oid

text \<open>
  The world a request runs in: the category collection (in its natural order), the user
  collection, the asset ids held by the media store, and the log of effects so far.
  Failures of the transport (a lost connection to the database or to the media store) are
  not part of it.
\<close>

record world =
  categories :: "category list"
  users :: "user list"
  assets :: "string list"
  effects :: "effect list"

text \<open>
  Errors handed to \<^verbatim>\<open>next\<close>: the controller's own \<^verbatim>\<open>AppError\<close> (message and
  HTTP status), and the two ways in which the collection rejects a write under
  \<^verbatim>\<open>categorySchema\<close>: a validator (\<^verbatim>\<open>required\<close>, \<^verbatim>\<open>enum\<close>) and a unique
  index.
\<close>

datatype error =
    AppError string nat
  | ValidationError string
  | DuplicateKey string

section \<open>Slug assignment\<close>

text \<open>Decimal digits of a counter, as the template literal prints an integer.\<close>

definition digit_char :: "nat \<Rightarrow> char" where
  "digit_char d = ''0123456789'' ! d"

fun string_of_nat :: "nat \<Rightarrow> string" where
  "string_of_nat n =
     (if n < 10 then [digit_char n]
      else string_of_nat (n div 10) @ [digit_char (n mod 10)])"

declare string_of_nat.simps [simp del]

text \<open>\<^verbatim>\<open>this.constructor.findOne({ slug })\<close>: the first stored document with that slug.\<close>

definition findOne_slug :: "category list \<Rightarrow> string \<Rightarrow> category option" where
  "findOne_slug docs s = find (\<lambda>d. slug d = Some s) docs"

definition suffixed :: "string \<Rightarrow> nat \<Rightarrow> string" where
  "suffixed base count = base @ ''-'' @ string_of_nat count"

text \<open>
  The \<^verbatim>\<open>while (slugExists)\<close> loop of the \<^verbatim>\<open>pre("save")\<close> hook.  Its state is the
  candidate \<open>s\<close> and the counter; \<open>base\<close> is \<^verbatim>\<open>createSlug(this.name)\<close>.
\<close>

function slug_while :: "category list \<Rightarrow> string \<Rightarrow> string \<Rightarrow> nat \<Rightarrow> string" where
  "slug_while docs base s count =
     (if findOne_slug docs s \<noteq> None
      then slug_while docs base (suffixed base count) (count + 1)
      else s)"
  by pat_completeness auto

text \<open>The loop condition, and why the loop ends: the suffixes are pairwise different.\<close>

definition taken :: "category list \<Rightarrow> string \<Rightarrow> bool" where
  "taken docs s = (findOne_slug docs s \<noteq> None)"

lemma digit_char_inj: "a < 10 \<Longrightarrow> b < 10 \<Longrightarrow> digit_char a = digit_char b \<Longrightarrow> a = b"
proof -
  assume a: "a < 10" and b: "b < 10" and e: "digit_char a = digit_char b"
  have "distinct ''0123456789''" by simp
  moreover from a b have "a < length ''0123456789''" "b < length ''0123456789''" by simp_all
  ultimately show "a = b" using e unfolding digit_char_def by (simp only: nth_eq_iff_index_eq)
qed

lemma string_of_nat_length: "length (string_of_nat n) = 1 \<longleftrightarrow> n < 10"
  by (subst string_of_nat.simps) (auto simp: string_of_nat.simps[of "n div 10"])

lemma string_of_nat_inj: "string_of_nat m = string_of_nat n \<Longrightarrow> m = n"
proof (induction m arbitrary: n rule: string_of_nat.induct)
  case (1 m)
  show ?case
  proof (cases "m < 10")
    case True
    with "1.prems" have "n < 10"
      using string_of_nat_length[of m] string_of_nat_length[of n] by simp
    with True "1.prems" show ?thesis
      by (simp add: string_of_nat.simps[of m] string_of_nat.simps[of n] digit_char_inj)
  next
    case False
    with "1.prems" have n: "\<not> n < 10"
      using string_of_nat_length[of m] string_of_nat_length[of n] by simp
    from False n "1.prems" have e: "string_of_nat (m div 10) = string_of_nat (n div 10)"
      and d: "digit_char (m mod 10) = digit_char (n mod 10)"
      by (simp_all add: string_of_nat.simps[of m] string_of_nat.simps[of n])
    from "1.IH"[OF False e] have "m div 10 = n div 10" .
    moreover from d have "m mod 10 = n mod 10" by (simp add: digit_char_inj)
    ultimately show ?thesis by (metis div_mult_mod_eq)
  qed
qed

lemma suffixed_inj: "suffixed base j = suffixed base k \<Longrightarrow> j = k"
  by (simp add: suffixed_def string_of_nat_inj)

lemma taken_iff: "taken docs s \<longleftrightarrow> Some s \<in> slug ` set docs"
  by (force simp: taken_def findOne_slug_def find_None_iff image_iff)

lemma finite_taken_suffixes: "finite {k. taken docs (suffixed base k)}"
proof -
  have "{k. taken docs (suffixed base k)} = (\<lambda>k. Some (suffixed base k)) -` (slug ` set docs)"
    by (auto simp: taken_iff)
  moreover have "inj (\<lambda>k. Some (suffixed base k))"
    by (auto simp: inj_on_def dest: suffixed_inj)
  ultimately show ?thesis by (simp add: finite_vimageI)
qed

termination slug_while
proof (relation "measure (\<lambda>(docs, base, s, count).
    2 * card {k. count \<le> k \<and> taken docs (suffixed base k)} + (if taken docs s then 1 else 0))")
  show "wf (measure (\<lambda>(docs, base, s, count).
    2 * card {k. count \<le> k \<and> taken docs (suffixed base k)} + (if taken docs s then 1 else 0)))"
    by simp
next
  fix docs :: "category list" and base s :: string and count :: nat
  assume "findOne_slug docs s \<noteq> None"
  then have t: "taken docs s" by (simp add: taken_def)
  let ?A = "{k. count \<le> k \<and> taken docs (suffixed base k)}"
  let ?B = "{k. count + 1 \<le> k \<and> taken docs (suffixed base k)}"
  have fin: "finite ?A"
    using finite_taken_suffixes[of docs base] by (rule rev_finite_subset) auto
  have sub: "?B \<subseteq> ?A" by auto
  show "((docs, base, suffixed base count, count + 1), (docs, base, s, count))
      \<in> measure (\<lambda>(docs, base, s, count).
        2 * card {k. count \<le> k \<and> taken docs (suffixed base k)} + (if taken docs s then 1 else 0))"
  proof (cases "taken docs (suffixed base count)")
    case True
    then have "count \<in> ?A" "count \<notin> ?B" by auto
    with sub have "?B \<subset> ?A" by blast
    with fin have "card ?B < card ?A" by (rule psubset_card_mono)
    with t True show ?thesis by simp
  next
    case False
    from fin sub have "card ?B \<le> card ?A" by (rule card_mono)
    with t False show ?thesis by simp
  qed
qed

declare slug_while.simps [simp del]

text \<open>
  \<^verbatim>\<open>categorySchema.pre("save")\<close>.  \<^verbatim>\<open>createSlug\<close> comes from
  \<^verbatim>\<open>../utils/slug\<close>, which is not among the sources: it is a parameter.
  \<open>name_modified\<close> is \<^verbatim>\<open>this.isModified("name")\<close>.
\<close>

definition pre_save ::
  "(string \<Rightarrow> string) \<Rightarrow> category list \<Rightarrow> bool \<Rightarrow> category \<Rightarrow> category" where
  "pre_save createSlug docs name_modified this =
     (if name_modified
      then this\<lparr>slug := Some (slug_while docs (createSlug (name this)) (createSlug (name this)) 1)\<rparr>
      else this)"

text \<open>
  Modelled from the spec: \<^verbatim>\<open>createSlug\<close> of \<^verbatim>\<open>src/utils/slug\<close>, which is missing.
  The spec gives it as lower-casing, whitespace and punctuation to hyphens, trimming.
  It is used only to run the operations on concrete names.
\<close>

definition is_alnum :: "char \<Rightarrow> bool" where
  "is_alnum c = (c \<in> set ''abcdefghijklmnopqrstuvwxyzABCDEFGHIJKLMNOPQRSTUVWXYZ0123456789'')"

definition lower_char :: "char \<Rightarrow> char" where
  "lower_char c =
     (case map_of (zip ''ABCDEFGHIJKLMNOPQRSTUVWXYZ'' ''abcdefghijklmnopqrstuvwxyz'') c of
        Some l \<Rightarrow> l
      | None \<Rightarrow> c)"

fun hyphenate :: "string \<Rightarrow> string" where
  "hyphenate [] = []"
| "hyphenate (c # cs) =
     (if is_alnum c then lower_char c # hyphenate cs
      else (case hyphenate cs of
              [] \<Rightarrow> ''-''
            | d # ds \<Rightarrow> if d = CHR ''-'' then d # ds else CHR ''-'' # d # ds))"

definition slugify :: "string \<Rightarrow> string" where
  "slugify s =
     rev (dropWhile (\<lambda>c. c = CHR ''-'') (rev (dropWhile (\<lambda>c. c = CHR ''-'') (hyphenate s))))"

section \<open>The category collection\<close>

text \<open>
  The operations of the document store that the controller calls, over the collection as
  a list of documents, with the validators and unique indexes that
  \<^verbatim>\<open>categorySchema\<close> declares.
\<close>

text \<open>The setter \<^verbatim>\<open>trim: true\<close> of \<^verbatim>\<open>name\<close> (ASCII white space).\<close>

definition is_space :: "char \<Rightarrow> bool" where
  "is_space c = (c \<in> set [CHR '' '', CHR 0x09, CHR 0x0A, CHR 0x0B, CHR 0x0C, CHR 0x0D])"

definition js_trim :: "string \<Rightarrow> string" where
  "js_trim s = rev (dropWhile is_space (rev (dropWhile is_space s)))"

definition category_types :: "string list" where
  "category_types = [''mega'', ''normal'']"

definition image_types :: "string list" where
  "image_types = [''thumbnail'', ''banner'', ''mobile'', ''gallery'']"

definition valid_image :: "image \<Rightarrow> bool" where
  "valid_image i = (url i \<noteq> [] \<and> itype i \<in> set image_types)"

definition findById :: "category list \<Rightarrow> oid \<Rightarrow> category option" where
  "findById docs i = find (\<lambda>d. cat_id d = i) docs"

text \<open>A query filter: \<open>f_parent = None\<close> puts no condition on \<^verbatim>\<open>parent\<close>,
  \<open>Some None\<close> is \<^verbatim>\<open>{ parent: null }\<close>.\<close>

record cfilter =
  f_parent :: "oid option option"
  f_ctype :: "string option"

definition matches :: "cfilter \<Rightarrow> category \<Rightarrow> bool" where
  "matches f d =
     ((case f_parent f of None \<Rightarrow> True | Some p \<Rightarrow> parent d = p) \<and>
      (case f_ctype f of None \<Rightarrow> True | Some t \<Rightarrow> ctype d = t))"

definition Category_find :: "category list \<Rightarrow> cfilter \<Rightarrow> category list" where
  "Category_find docs f = filter (matches f) docs"

definition countDocuments :: "category list \<Rightarrow> cfilter \<Rightarrow> nat" where
  "countDocuments docs f = length (filter (matches f) docs)"

text \<open>A new ObjectId: one that no stored document and no stored image has.\<close>

definition stored_oids :: "category list \<Rightarrow> oid list" where
  "stored_oids docs =
     concat (map (\<lambda>d. cat_id d #
                    concat (map (\<lambda>img. case image_oid img of None \<Rightarrow> [] | Some i \<Rightarrow> [i])
                                (images d))) docs)"

definition fresh_oid :: "category list \<Rightarrow> oid" where
  "fresh_oid docs = Suc (fold max (stored_oids docs) 0)"

text \<open>
  Casting a list of images through \<^verbatim>\<open>imageSchema\<close>, as every write of
  \<^verbatim>\<open>images\<close> does: an image that comes without an \<^verbatim>\<open>_id\<close> is given a new
  one, counting from \<open>n\<close>.
\<close>

fun cast_images :: "oid \<Rightarrow> image list \<Rightarrow> image list" where
  "cast_images n [] = []"
| "cast_images n (img # imgs) =
     (case image_oid img of
        None \<Rightarrow> img\<lparr>image_oid := Some n\<rparr> # cast_images (Suc n) imgs
      | Some i \<Rightarrow> img # cast_images n imgs)"

text \<open>
  \<^verbatim>\<open>Category.create(body)\<close>: the document is built from the schema's fields of the
  body with the schema's defaults, validated, passed through the \<^verbatim>\<open>pre("save")\<close>
  hook (the name of a new document counts as modified) and inserted under the unique
  indexes on \<^verbatim>\<open>name\<close> and \<^verbatim>\<open>slug\<close>.
\<close>

definition Category_create ::
  "(string \<Rightarrow> string) \<Rightarrow> category list \<Rightarrow> body \<Rightarrow> error + category" where
  "Category_create createSlug docs b =
     (case b_name b of
        None \<Rightarrow> Inl (ValidationError ''A category must have a name'')
      | Some n \<Rightarrow>
          if js_trim n = [] then Inl (ValidationError ''A category must have a name'')
          else (case b_createdBy b of
            None \<Rightarrow> Inl (ValidationError ''createdBy'')
          | Some u \<Rightarrow>
              let doc0 = \<lparr>cat_id = fresh_oid docs,
                          name = js_trim n,
                          slug = b_slug b,
                          ctype = (case b_ctype b of None \<Rightarrow> ''normal'' | Some t \<Rightarrow> t),
                          parent = (case b_parent b of None \<Rightarrow> None | Some p \<Rightarrow> p),
                          description = b_description b,
                          active = (case b_active b of None \<Rightarrow> True | Some a \<Rightarrow> a),
                          images = (case b_images b of
                                      None \<Rightarrow> []
                                    | Some imgs \<Rightarrow> cast_images (Suc (fresh_oid docs)) imgs),
                          createdBy = u\<rparr>
              in if ctype doc0 \<notin> set category_types then Inl (ValidationError ''type'')
                 else if \<not> list_all valid_image (images doc0) then Inl (ValidationError ''images'')
                 else
                   let doc = pre_save createSlug docs True doc0
                   in if list_ex (\<lambda>d. name d = name doc) docs then Inl (DuplicateKey ''name'')
                      else if list_ex (\<lambda>d. slug d = slug doc) docs then Inl (DuplicateKey ''slug'')
                      else Inr doc))"

fun update_first :: "('a \<Rightarrow> bool) \<Rightarrow> ('a \<Rightarrow> 'a) \<Rightarrow> 'a list \<Rightarrow> 'a list" where
  "update_first P f [] = []"
| "update_first P f (x # xs) = (if P x then f x # xs else x # update_first P f xs)"

fun delete_first :: "('a \<Rightarrow> bool) \<Rightarrow> 'a list \<Rightarrow> 'a list" where
  "delete_first P [] = []"
| "delete_first P (x # xs) = (if P x then xs else x # delete_first P xs)"

text \<open>The update validators (\<^verbatim>\<open>runValidators: true\<close>): those of the paths in the update.\<close>

definition validate_update :: "body \<Rightarrow> error option" where
  "validate_update b =
     (if (case b_name b of None \<Rightarrow> False | Some n \<Rightarrow> js_trim n = [])
        then Some (ValidationError ''A category must have a name'')
      else if (case b_ctype b of None \<Rightarrow> False | Some t \<Rightarrow> t \<notin> set category_types)
        then Some (ValidationError ''type'')
      else if (case b_images b of None \<Rightarrow> False | Some imgs \<Rightarrow> \<not> list_all valid_image imgs)
        then Some (ValidationError ''images'')
      else None)"

text \<open>The update document: each schema field of the body is set, the others keep their
  value.  New images are cast through their schema, with \<open>n\<close> the next new ObjectId.\<close>

definition apply_update :: "oid \<Rightarrow> body \<Rightarrow> category \<Rightarrow> category" where
  "apply_update n b d =
     d\<lparr>name := (case b_name b of None \<Rightarrow> name d | Some n \<Rightarrow> js_trim n),
       slug := (case b_slug b of None \<Rightarrow> slug d | Some s \<Rightarrow> Some s),
       ctype := (case b_ctype b of None \<Rightarrow> ctype d | Some t \<Rightarrow> t),
       parent := (case b_parent b of None \<Rightarrow> parent d | Some p \<Rightarrow> p),
       description := (case b_description b of None \<Rightarrow> description d | Some x \<Rightarrow> Some x),
       active := (case b_active b of None \<Rightarrow> active d | Some a \<Rightarrow> a),
       images := (case b_images b of None \<Rightarrow> images d | Some imgs \<Rightarrow> cast_images n imgs),
       createdBy := (case b_createdBy b of None \<Rightarrow> createdBy d | Some u \<Rightarrow> u)\<rparr>"

text \<open>
  \<^verbatim>\<open>Category.findByIdAndUpdate(id, body, { new: true, runValidators: true })\<close>: a query
  operation.  The document middleware registered with \<^verbatim>\<open>pre("save")\<close> is not part
  of it.  It yields the updated document (\<open>None\<close> when no document has the id) and the
  collection after the write.
\<close>

definition findByIdAndUpdate ::
  "category list \<Rightarrow> oid \<Rightarrow> body \<Rightarrow> error + (category option \<times> category list)" where
  "findByIdAndUpdate docs i b =
     (case validate_update b of
        Some e \<Rightarrow> Inl e
      | None \<Rightarrow>
          (case findById docs i of
             None \<Rightarrow> Inr (None, docs)
           | Some d \<Rightarrow>
               let d' = apply_update (fresh_oid docs) b d;
                   others = delete_first (\<lambda>x. cat_id x = i) docs
               in if name d' \<noteq> name d \<and> list_ex (\<lambda>x. name x = name d') others
                    then Inl (DuplicateKey ''name'')
                  else if slug d' \<noteq> slug d \<and> list_ex (\<lambda>x. slug x = slug d') others
                    then Inl (DuplicateKey ''slug'')
                  else Inr (Some d', update_first (\<lambda>x. cat_id x = i) (\<lambda>x. d') docs)))"

definition findByIdAndDelete :: "category list \<Rightarrow> oid \<Rightarrow> category list" where
  "findByIdAndDelete docs i = delete_first (\<lambda>x. cat_id x = i) docs"

section \<open>The media store\<close>

text \<open>\<^verbatim>\<open>cloudinary.uploader.destroy(id)\<close>: the call is logged and the asset is gone.\<close>

definition cloudinary_destroy :: "string \<Rightarrow> world \<Rightarrow> world" where
  "cloudinary_destroy i w =
     w\<lparr>assets := removeAll i (assets w), effects := effects w @ [MediaDestroy i]\<rparr>"

text \<open>
  \<^verbatim>\<open>img.id\<close>: the virtual getter of a stored image, the string of its \<^verbatim>\<open>_id\<close>
  (ObjectIds are naturals here, their string is the decimal one); undefined on an object
  without \<^verbatim>\<open>_id\<close>.
\<close>

definition id_string :: "oid \<Rightarrow> string" where
  "id_string i = string_of_nat i"

definition img_id :: "image \<Rightarrow> string option" where
  "img_id img = map_option id_string (image_oid img)"

text \<open>
  \<^verbatim>\<open>for (const img of category.images) { if (img.id) await destroy(img.id); }\<close>
  An undefined id and the empty string are falsy.
\<close>

fun destroy_images :: "image list \<Rightarrow> world \<Rightarrow> world" where
  "destroy_images [] w = w"
| "destroy_images (img # imgs) w =
     destroy_images imgs
       (case img_id img of
          None \<Rightarrow> w
        | Some i \<Rightarrow> if i \<noteq> [] then cloudinary_destroy i w else w)"

text \<open>
  \<^verbatim>\<open>req.files.map(file => ({ url: file.path, altText: req.body.altText || "",
  type: file.fieldname }))\<close>
\<close>

definition images_from_files :: "body \<Rightarrow> upload list \<Rightarrow> image list" where
  "images_from_files b files =
     map (\<lambda>file. \<lparr>url = path file,
                   altText = (case b_altText b of None \<Rightarrow> [] | Some a \<Rightarrow> if a \<noteq> [] then a else []),
                   itype = fieldname file,
                   image_oid = None\<rparr>) files"

section \<open>Responses\<close>

text \<open>
  A category as a read operation returns it: the document, its populated creator
  (\<open>None\<close> when no user has the id) and the virtual \<^verbatim>\<open>children\<close>, which is
  undefined (\<open>None\<close>) until it is populated.
\<close>

datatype pcat = PCat (doc: category) (creator: "user option") (children: "pcat list option")

text \<open>The parent as \<^verbatim>\<open>populate("parent", "name slug type")\<close> shows it.\<close>

record parent_view =
  pv_id :: oid
  pv_name :: string
  pv_slug :: "string option"
  pv_ctype :: string

text \<open>An entry of the subcategory listing: the stored document, the two populated
  references and the requested projection.\<close>

record listed =
  l_doc :: category
  l_createdBy :: "user option"
  l_parent :: "parent_view option"
  l_fields :: "string list option"

record pagination =
  p_total :: nat
  p_page :: nat
  p_limit :: nat

datatype payload =
    PNull
  | PCategory "category option"
  | PSubCategory "category option"
  | PTree pcat
  | PTrees "pcat list"
  | PSubCategories "listed list" pagination

text \<open>What \<^verbatim>\<open>successResponse(res, data, message, statusCode)\<close> sends; the status is
  200 when the call gives none.\<close>

record response =
  status :: nat
  message :: string
  payload :: payload

section \<open>Recursive expansion of the children\<close>

definition find_user :: "user list \<Rightarrow> oid \<Rightarrow> user option" where
  "find_user us i = find (\<lambda>u. user_id u = i) us"

text \<open>
  \<^verbatim>\<open>category.populate({ path: "children", populate: { path: "createdBy", ... } })\<close>:
  the virtual \<^verbatim>\<open>children\<close> becomes the list of the documents whose \<^verbatim>\<open>parent\<close> is
  this document's id (the empty list when there is none), each with its creator populated.
\<close>

definition populate_children :: "world \<Rightarrow> pcat \<Rightarrow> pcat" where
  "populate_children w category =
     PCat (doc category) (creator category)
       (Some (map (\<lambda>d. PCat d (find_user (users w) (createdBy d)) None)
                  (filter (\<lambda>d. parent d = Some (cat_id (doc category))) (categories w))))"

text \<open>
  \<^verbatim>\<open>for (let child of category.children) await populateChildrenRecursively(child)\<close>,
  with the body of \<^verbatim>\<open>populateChildrenRecursively\<close> in the place of the call.  The
  recursion has no bound of its own: a run that does not return is \<open>None\<close>.
\<close>

partial_function (option) populate_each :: "world \<Rightarrow> pcat list \<Rightarrow> pcat list option" where
  "populate_each w cs =
     (case cs of
        [] \<Rightarrow> Some []
      | child # rest \<Rightarrow>
          do {
            child' \<leftarrow>
              (let category = populate_children w child in
               case children category of
                 None \<Rightarrow> Some category
               | Some ch \<Rightarrow>
                   if length ch > 0
                   then do {
                     ch' \<leftarrow> populate_each w ch;
                     Some (PCat (doc category) (creator category) (Some ch'))
                   }
                   else Some category);
            rest' \<leftarrow> populate_each w rest;
            Some (child' # rest')
          })"

definition populateChildrenRecursively :: "world \<Rightarrow> pcat \<Rightarrow> pcat option" where
  "populateChildrenRecursively w c =
     (let category = populate_children w c in
      case children category of
        None \<Rightarrow> Some category
      | Some ch \<Rightarrow>
          if length ch > 0
          then do {
            ch' \<leftarrow> populate_each w ch;
            Some (PCat (doc category) (creator category) (Some ch'))
          }
          else Some category)"

section \<open>The request handlers\<close>

text \<open>
  A handler takes the world and the parts of the request it reads, and yields what it
  hands to \<^verbatim>\<open>next\<close> (\<open>Inl\<close>) or sends (\<open>Inr\<close>), and the world after it.
  \<^verbatim>\<open>req.files\<close> is a list: undefined and empty take the same branch of
  \<^verbatim>\<open>req.files && req.files.length\<close>.
\<close>

record query =
  q_type :: "string option"
  q_parentId :: "oid option"
  q_sort :: "(category \<Rightarrow> int) option"
  q_fields :: "string list option"
  q_page :: nat
  q_limit :: nat

definition getAllCategories :: "world \<Rightarrow> query \<Rightarrow> (error + response) option" where
  "getAllCategories w q =
     (let filter0 = \<lparr>f_parent = Some None, f_ctype = None\<rparr>;
          filter1 = (case q_type q of
                       None \<Rightarrow> filter0
                     | Some t \<Rightarrow> if t \<noteq> [] then filter0\<lparr>f_ctype := Some t\<rparr> else filter0);
          found = map (\<lambda>d. PCat d (find_user (users w) (createdBy d)) None)
                      (Category_find (categories w) filter1)
      in do {
        cats \<leftarrow> populate_each w found;
        Some (Inr \<lparr>status = 200,
                   message = ''Categories fetched successfully with nested children'',
                   payload = PTrees cats\<rparr>)
      })"

definition getCategory :: "world \<Rightarrow> string \<Rightarrow> (error + response) option" where
  "getCategory w slug_param =
     (case findOne_slug (categories w) slug_param of
        None \<Rightarrow> Some (Inl (AppError ''No category found with that slug'' 404))
      | Some d \<Rightarrow>
          do {
            category \<leftarrow> populateChildrenRecursively w
                          (PCat d (find_user (users w) (createdBy d)) None);
            Some (Inr \<lparr>status = 200,
                       message = ''Category fetched successfully with nested children'',
                       payload = PTree category\<rparr>)
          })"

definition createCategory ::
  "(string \<Rightarrow> string) \<Rightarrow> world \<Rightarrow> oid \<Rightarrow> body \<Rightarrow> upload list \<Rightarrow> (error + response) \<times> world" where
  "createCategory createSlug w uid b files =
     (let b1 = (if files \<noteq> [] then b\<lparr>b_images := Some (images_from_files b files)\<rparr> else b);
          b2 = b1\<lparr>b_createdBy := Some uid\<rparr>
      in case Category_create createSlug (categories w) b2 of
           Inl e \<Rightarrow> (Inl e, w)
         | Inr newCategory \<Rightarrow>
             (Inr \<lparr>status = 201, message = ''Category created successfully'',
                   payload = PCategory (Some newCategory)\<rparr>,
              w\<lparr>categories := categories w @ [newCategory],
                effects := effects w @ [DbInsert (cat_id newCategory)]\<rparr>))"

definition updateCategory ::
  "world \<Rightarrow> oid \<Rightarrow> body \<Rightarrow> upload list \<Rightarrow> (error + response) \<times> world" where
  "updateCategory w i b files =
     (case findById (categories w) i of
        None \<Rightarrow> (Inl (AppError ''No category found with that ID'' 404), w)
      | Some category \<Rightarrow>
         (let w1 = (if files \<noteq> [] \<and> images category \<noteq> []
                    then destroy_images (images category) w else w);
              b1 = (if files \<noteq> [] then b\<lparr>b_images := Some (images_from_files b files)\<rparr> else b)
          in (case findByIdAndUpdate (categories w1) i b1 of
               Inl e \<Rightarrow> (Inl e, w1)
             | Inr (updatedCategory, docs') \<Rightarrow>
                 (Inr \<lparr>status = 200, message = ''Category updated successfully'',
                       payload = PCategory updatedCategory\<rparr>,
                  w1\<lparr>categories := docs', effects := effects w1 @ [DbUpdate i]\<rparr>))))"

definition deleteCategory :: "world \<Rightarrow> oid \<Rightarrow> (error + response) \<times> world" where
  "deleteCategory w i =
     (case findById (categories w) i of
        None \<Rightarrow> (Inl (AppError ''No category found with that ID'' 404), w)
      | Some category \<Rightarrow>
          let w1 = (if images category \<noteq> [] then destroy_images (images category) w else w)
          in (Inr \<lparr>status = 204, message = ''Category deleted successfully'', payload = PNull\<rparr>,
              w1\<lparr>categories := findByIdAndDelete (categories w1) i,
                 effects := effects w1 @ [DbDelete i]\<rparr>))"

definition createSubCategory ::
  "(string \<Rightarrow> string) \<Rightarrow> world \<Rightarrow> oid \<Rightarrow> oid \<Rightarrow> body \<Rightarrow> upload list
     \<Rightarrow> (error + response) \<times> world" where
  "createSubCategory createSlug w parentId uid b files =
     (let b1 = b\<lparr>b_parent := Some (Some parentId), b_createdBy := Some uid\<rparr>;
          b2 = (if files \<noteq> [] then b1\<lparr>b_images := Some (images_from_files b1 files)\<rparr> else b1)
      in case Category_create createSlug (categories w) b2 of
           Inl e \<Rightarrow> (Inl e, w)
         | Inr subCategory \<Rightarrow>
             (Inr \<lparr>status = 201, message = ''Subcategory created successfully'',
                   payload = PSubCategory (Some subCategory)\<rparr>,
              w\<lparr>categories := categories w @ [subCategory],
                effects := effects w @ [DbInsert (cat_id subCategory)]\<rparr>))"

definition updateSubCategory ::
  "world \<Rightarrow> oid \<Rightarrow> body \<Rightarrow> upload list \<Rightarrow> (error + response) \<times> world" where
  "updateSubCategory w i b files =
     (case findById (categories w) i of
        None \<Rightarrow> (Inl (AppError ''No subcategory found with that ID'' 404), w)
      | Some subCategory \<Rightarrow>
         (let w1 = (if files \<noteq> [] \<and> images subCategory \<noteq> []
                    then destroy_images (images subCategory) w else w);
              b1 = (if files \<noteq> [] then b\<lparr>b_images := Some (images_from_files b files)\<rparr> else b)
          in (case findByIdAndUpdate (categories w1) i b1 of
               Inl e \<Rightarrow> (Inl e, w1)
             | Inr (updatedSubCategory, docs') \<Rightarrow>
                 (Inr \<lparr>status = 200, message = ''Subcategory updated successfully'',
                       payload = PSubCategory updatedSubCategory\<rparr>,
                  w1\<lparr>categories := docs', effects := effects w1 @ [DbUpdate i]\<rparr>))))"

definition deleteSubCategory :: "world \<Rightarrow> oid \<Rightarrow> (error + response) \<times> world" where
  "deleteSubCategory w i =
     (case findById (categories w) i of
        None \<Rightarrow> (Inl (AppError ''No subcategory found with that ID'' 404), w)
      | Some subCategory \<Rightarrow>
          let w1 = (if images subCategory \<noteq> []
                    then destroy_images (images subCategory) w else w)
          in (Inr \<lparr>status = 204, message = ''Subcategory deleted successfully'', payload = PNull\<rparr>,
              w1\<lparr>categories := findByIdAndDelete (categories w1) i,
                 effects := effects w1 @ [DbDelete i]\<rparr>))"

text \<open>
  Modelled from the spec: \<^verbatim>\<open>APIFeatures.sort\<close> of \<^verbatim>\<open>src/utils/apiFeatures\<close>, which is
  missing.  The spec says that the listing respects the requested sort order; the request
  carries it as a key on the documents.
\<close>

definition APIFeatures_sort :: "query \<Rightarrow> listed list \<Rightarrow> listed list" where
  "APIFeatures_sort q xs =
     (case q_sort q of None \<Rightarrow> xs | Some key \<Rightarrow> sort_key (\<lambda>x. key (l_doc x)) xs)"

text \<open>
  Modelled from the spec: \<^verbatim>\<open>APIFeatures.limitFields\<close> of \<^verbatim>\<open>src/utils/apiFeatures\<close>,
  which is missing.  The spec says that the listing respects the requested field projection.
\<close>

definition APIFeatures_limitFields :: "query \<Rightarrow> listed list \<Rightarrow> listed list" where
  "APIFeatures_limitFields q xs = map (\<lambda>x. x\<lparr>l_fields := q_fields q\<rparr>) xs"

text \<open>
  Modelled from the spec: \<^verbatim>\<open>APIFeatures.paginate(total)\<close> of
  \<^verbatim>\<open>src/utils/apiFeatures\<close>, which is missing.  The spec gives page-based pagination
  computed against a precomputed total count, and a reported total.
\<close>

definition APIFeatures_paginate ::
  "query \<Rightarrow> nat \<Rightarrow> listed list \<Rightarrow> listed list \<times> pagination" where
  "APIFeatures_paginate q total_docs xs =
     (take (q_limit q) (drop ((q_page q - 1) * q_limit q) xs),
      \<lparr>p_total = total_docs, p_page = q_page q, p_limit = q_limit q\<rparr>)"

definition parent_view_of :: "category \<Rightarrow> parent_view" where
  "parent_view_of d = \<lparr>pv_id = cat_id d, pv_name = name d, pv_slug = slug d, pv_ctype = ctype d\<rparr>"

definition getAllSubCategories :: "world \<Rightarrow> query \<Rightarrow> error + response" where
  "getAllSubCategories w q =
     (let filter0 = \<lparr>f_parent = None, f_ctype = None\<rparr>;
          filter1 = (case q_parentId q of
                       None \<Rightarrow> filter0
                     | Some p \<Rightarrow> filter0\<lparr>f_parent := Some (Some p)\<rparr>);
          total_docs = countDocuments (categories w) filter1;
          found = map (\<lambda>d. \<lparr>l_doc = d,
                              l_createdBy = find_user (users w) (createdBy d),
                              l_parent = (case parent d of
                                            None \<Rightarrow> None
                                          | Some p \<Rightarrow> map_option parent_view_of
                                                        (findById (categories w) p)),
                              l_fields = None\<rparr>)
                      (Category_find (categories w) filter1);
          features = APIFeatures_paginate q total_docs
                       (APIFeatures_limitFields q (APIFeatures_sort q found))
      in Inr \<lparr>status = 200, message = ''Subcategories fetched successfully'',
               payload = PSubCategories (fst features) (snd features)\<rparr>)"

section \<open>A small catalogue\<close>

text \<open>
  Three nested categories created by one user, the root with two stored images.  The
  operations are run on it below.
\<close>

definition ann :: user where
  "ann = \<lparr>user_id = 1, user_name = ''Ann'', email = ''ann@example.org''\<rparr>"

definition shoes :: category where
  "shoes = \<lparr>cat_id = 1, name = ''Shoes'', slug = Some ''shoes'', ctype = ''mega'',
             parent = None, description = None, active = True,
             images = [\<lparr>url = ''https://media/shoes.png'', altText = ''shoes'',
                        itype = ''banner'', image_oid = Some 11\<rparr>,
                       \<lparr>url = ''https://media/shoes-small.png'', altText = [],
                        itype = ''thumbnail'', image_oid = Some 12\<rparr>],
             createdBy = 1\<rparr>"

definition boots :: category where
  "boots = \<lparr>cat_id = 2, name = ''Boots'', slug = Some ''boots'', ctype = ''normal'',
             parent = Some 1, description = None, active = True, images = [], createdBy = 1\<rparr>"

definition ankle_boots :: category where
  "ankle_boots = \<lparr>cat_id = 3, name = ''Ankle Boots'', slug = Some ''ankle-boots'',
             ctype = ''normal'', parent = Some 2, description = None, active = True,
             images = [], createdBy = 1\<rparr>"

definition catalogue :: world where
  "catalogue = \<lparr>categories = [shoes, boots, ankle_boots], users = [ann],
                 assets = [''categories/shoes'', ''categories/shoes-small''], effects = []\<rparr>"

definition empty_body :: body where
  "empty_body = \<lparr>b_name = None, b_slug = None, b_ctype = None, b_parent = None,
                  b_description = None, b_active = None, b_images = None,
                  b_createdBy = None, b_altText = None\<rparr>"

section \<open>Images cast through their schema\<close>

lemma cast_images_length [simp]: "length (cast_images n imgs) = length imgs"
  by (induction imgs arbitrary: n) (auto split: option.splits)

lemma cast_images_fields [simp]:
  "map url (cast_images n imgs) = map url imgs"
  "map altText (cast_images n imgs) = map altText imgs"
  "map itype (cast_images n imgs) = map itype imgs"
  by (induction imgs arbitrary: n; auto split: option.splits)+

lemma cast_images_valid [simp]:
  "list_all valid_image (cast_images n imgs) = list_all valid_image imgs"
  by (induction imgs arbitrary: n) (auto simp: valid_image_def split: option.splits)

lemma cast_images_stored: "img \<in> set (cast_images n imgs) \<Longrightarrow> image_oid img \<noteq> None"
  by (induction imgs arbitrary: n) (auto split: option.splits)

lemma cast_images_new:
  "\<forall>img \<in> set imgs. image_oid img = None \<Longrightarrow>
     map (\<lambda>img. img\<lparr>image_oid := None\<rparr>) (cast_images n imgs) = imgs \<and>
     map image_oid (cast_images n imgs) = map Some [n ..< n + length imgs]"
proof (induction imgs arbitrary: n)
  case Nil
  show ?case by simp
next
  case (Cons img imgs)
  from Cons.prems have "image_oid img = None" "\<forall>img \<in> set imgs. image_oid img = None" by simp_all
  note h = this
  have u: "[n ..< n + length (img # imgs)] = n # [Suc n ..< Suc n + length imgs]"
    by (simp del: upt_Suc add: upt_conv_Cons)
  from Cons.IH[OF h(2), of "Suc n"] h(1) show ?case unfolding u by (simp del: upt_Suc)
qed

section \<open>Slug assignment: the first free suffix\<close>

lemma slug_while_free: "\<not> taken docs s \<Longrightarrow> slug_while docs base s count = s"
  by (subst slug_while.simps) (simp add: taken_def)

lemma slug_while_taken:
  "taken docs s \<Longrightarrow> slug_while docs base s count = slug_while docs base (suffixed base count) (count + 1)"
  by (subst slug_while.simps) (simp add: taken_def)

lemma slug_while_run:
  "taken docs s \<Longrightarrow> count \<le> k \<Longrightarrow> (\<forall>j. count \<le> j \<and> j < k \<longrightarrow> taken docs (suffixed base j))
     \<Longrightarrow> \<not> taken docs (suffixed base k) \<Longrightarrow> slug_while docs base s count = suffixed base k"
proof (induction "k - count" arbitrary: s count)
  case 0
  then have "count = k" by simp
  with 0 show ?case by (simp add: slug_while_taken slug_while_free)
next
  case (Suc n)
  then have lt: "count < k" by simp
  with Suc.prems have t: "taken docs (suffixed base count)" by simp
  have "slug_while docs base (suffixed base count) (count + 1) = suffixed base k"
  proof (rule Suc.hyps(1))
    show "n = k - (count + 1)" using Suc.hyps(2) by simp
    show "taken docs (suffixed base count)" by (rule t)
    show "count + 1 \<le> k" using lt by simp
    show "\<forall>j. count + 1 \<le> j \<and> j < k \<longrightarrow> taken docs (suffixed base j)" using Suc.prems(3) by simp
    show "\<not> taken docs (suffixed base k)" by (rule Suc.prems(4))
  qed
  with Suc.prems(1) show ?case by (simp add: slug_while_taken)
qed

lemma ex_free_suffix: "\<exists>k\<ge>c. \<not> taken docs (suffixed base k)"
proof (rule ccontr)
  assume "\<not> ?thesis"
  then have "{k. c \<le> k} \<subseteq> {k. taken docs (suffixed base k)}" by auto
  then have "finite {k. c \<le> k}" using finite_taken_suffixes by (rule finite_subset)
  moreover have "infinite {k. c \<le> k}" 
    by (metis (mono_tags, lifting) finite_nat_set_iff_bounded_le mem_Collect_eq nat_le_linear not_less_eq_eq)
  ultimately show False by simp
qed

lemma first_free_suffix:
  "\<exists>k\<ge>c. \<not> taken docs (suffixed base k) \<and> (\<forall>j. c \<le> j \<and> j < k \<longrightarrow> taken docs (suffixed base j))"
proof -
  let ?P = "\<lambda>k. c \<le> k \<and> \<not> taken docs (suffixed base k)"
  from ex_free_suffix[of c docs base] obtain k0 where "?P k0" by blast
  then have "?P (LEAST k. ?P k)" by (rule LeastI)
  moreover have "\<And>j. j < (LEAST k. ?P k) \<Longrightarrow> \<not> ?P j" by (rule not_less_Least)
  ultimately show ?thesis by blast
qed

lemma pre_save_slug:
  "slug (pre_save createSlug docs True d) =
     Some (slug_while docs (createSlug (name d)) (createSlug (name d)) 1)"
  "name (pre_save createSlug docs m d) = name d"
  by (simp_all add: pre_save_def)

lemma slug_while_result:
  "(if \<not> taken docs base then slug_while docs base base 1 = base
    else \<exists>k\<ge>1. slug_while docs base base 1 = suffixed base k \<and> \<not> taken docs (suffixed base k) \<and>
           (\<forall>j. 1 \<le> j \<and> j < k \<longrightarrow> taken docs (suffixed base j)))"
proof (cases "taken docs base")
  case False
  then show ?thesis by (simp add: slug_while_free)
next
  case True
  from first_free_suffix[of 1 docs base] obtain k where k: "1 \<le> k" "\<not> taken docs (suffixed base k)"
    "\<forall>j. 1 \<le> j \<and> j < k \<longrightarrow> taken docs (suffixed base j)" by blast
  from slug_while_run[OF True k(1) k(3) k(2)] k True show ?thesis by auto
qed

lemma Category_create_Inr:
  assumes "Category_create createSlug docs b = Inr d"
  shows "\<exists>n. b_name b = Some n \<and> name d = js_trim n \<and>
     slug d = Some (slug_while docs (createSlug (name d)) (createSlug (name d)) 1)"
  using assms
  by (auto simp: Category_create_def Let_def pre_save_def split: option.splits if_splits)

text \<open>A creation with a valid body and a name that no stored document has is accepted:
  the slug that the hook assigns never collides.\<close>

lemma Category_create_succeeds:
  assumes "b_name b = Some n" "js_trim n \<noteq> []" "b_createdBy b = Some u"
    and "(case b_ctype b of None \<Rightarrow> True | Some t \<Rightarrow> t \<in> set category_types)"
    and "(case b_images b of None \<Rightarrow> True | Some imgs \<Rightarrow> list_all valid_image imgs)"
    and "js_trim n \<notin> name ` set docs"
  shows "\<exists>d. Category_create createSlug docs b = Inr d"
proof -
  let ?base = "createSlug (js_trim n)"
  from slug_while_result[of docs ?base] have "\<not> taken docs (slug_while docs ?base ?base 1)"
    by (auto split: if_splits)
  then have free: "\<not> list_ex (\<lambda>d. slug d = Some (slug_while docs ?base ?base 1)) docs"
    by (auto simp: taken_iff list_ex_iff image_iff)
  from assms(6) have fresh: "\<not> list_ex (\<lambda>d. name d = js_trim n) docs"
    by (force simp: list_ex_iff)
  from assms(1-5) free fresh show ?thesis
    by (auto simp: Category_create_def Let_def pre_save_def category_types_def
        split: option.splits)
qed

text \<open>
  The slug that the spec gives a name whose slugified form is \<open>base\<close>: \<open>base\<close> itself if
  no stored document has it, otherwise \<open>base-k\<close> for the first \<open>k = 1, 2, ...\<close> such that
  no stored document has \<open>base-k\<close>.
\<close>

definition first_free_slug :: "category list \<Rightarrow> string \<Rightarrow> string \<Rightarrow> bool" where
  "first_free_slug docs base s =
     (if Some base \<notin> slug ` set docs then s = base
      else \<exists>k\<ge>1. s = suffixed base k \<and> Some (suffixed base k) \<notin> slug ` set docs \<and>
             (\<forall>j. 1 \<le> j \<and> j < k \<longrightarrow> Some (suffixed base j) \<in> slug ` set docs))"

text \<open>Two creations in a row under names with the same slugified form.\<close>

definition upper_shoes :: category where
  "upper_shoes = \<lparr>cat_id = 13, name = ''SHOES'', slug = Some ''shoes-1'', ctype = ''normal'',
      parent = None, description = None, active = True, images = [], createdBy = 1\<rparr>"

definition lower_shoes :: category where
  "lower_shoes = \<lparr>cat_id = 14, name = ''shoes'', slug = Some ''shoes-2'', ctype = ''normal'',
      parent = None, description = None, active = True, images = [], createdBy = 1\<rparr>"

lemma hook_assigns_first_free_slug:
  "\<exists>s. slug (pre_save createSlug docs True this) = Some s \<and>
       first_free_slug docs (createSlug (name this)) s"
  using slug_while_result[of docs "createSlug (name this)"]
  by (simp add: pre_save_def first_free_slug_def taken_iff split: if_splits)

text \<open>
  C1.  The \<^verbatim>\<open>pre("save")\<close> hook gives a document whose name is new or changed the
  slugified name if no stored document has that slug; otherwise the slugified name followed
  by \<open>-k\<close> for the first \<open>k = 1, 2, ...\<close> such that no stored document has that slug.
  Every document that \<^verbatim>\<open>Category.create\<close> stores has this slug for its (stored) name,
  and a creation with a valid body under a name that no stored document has is stored.  The
  slug is a function of the store and the name, so it is determined by the order of the
  creations.
\<close>

theorem slug_assigned_at_creation:
  "(\<exists>s. slug (pre_save createSlug docs True this) = Some s \<and>
        first_free_slug docs (createSlug (name this)) s) \<and>
   (\<forall>d. Category_create createSlug docs b = Inr d \<longrightarrow>
        (\<exists>s. slug d = Some s \<and> first_free_slug docs (createSlug (name d)) s)) \<and>
   (\<forall>n u. b_name b = Some n \<and> js_trim n \<noteq> [] \<and> b_createdBy b = Some u \<and>
          (case b_ctype b of None \<Rightarrow> True | Some t \<Rightarrow> t \<in> set category_types) \<and>
          (case b_images b of None \<Rightarrow> True | Some imgs \<Rightarrow> list_all valid_image imgs) \<and>
          js_trim n \<notin> name ` set docs \<longrightarrow>
        (\<exists>d. Category_create createSlug docs b = Inr d \<and> name d = js_trim n))"
proof (intro conjI allI impI)
  show "\<exists>s. slug (pre_save createSlug docs True this) = Some s \<and>
        first_free_slug docs (createSlug (name this)) s"
    by (rule hook_assigns_first_free_slug)
next
  fix d assume c: "Category_create createSlug docs b = Inr d"
  from Category_create_Inr[OF c]
  have "slug d = slug (pre_save createSlug docs True d)" by (auto simp: pre_save_def)
  with hook_assigns_first_free_slug[of createSlug docs d]
  show "\<exists>s. slug d = Some s \<and> first_free_slug docs (createSlug (name d)) s" by simp
next
  fix n u
  assume v: "b_name b = Some n \<and> js_trim n \<noteq> [] \<and> b_createdBy b = Some u \<and>
          (case b_ctype b of None \<Rightarrow> True | Some t \<Rightarrow> t \<in> set category_types) \<and>
          (case b_images b of None \<Rightarrow> True | Some imgs \<Rightarrow> list_all valid_image imgs) \<and>
          js_trim n \<notin> name ` set docs"
  then obtain d where d: "Category_create createSlug docs b = Inr d"
    using Category_create_succeeds[of b n u docs createSlug] by blast
  from Category_create_Inr[OF d] v have "name d = js_trim n" by auto
  with d show "\<exists>d. Category_create createSlug docs b = Inr d \<and> name d = js_trim n" by blast
qed

theorem slug_assigned_at_creation_witness:
  "Category_create slugify (categories catalogue)
     (empty_body\<lparr>b_name := Some '' SHOES '', b_createdBy := Some 1\<rparr>) = Inr upper_shoes \<and>
   js_trim ''shoes'' \<noteq> [] \<and>
   js_trim ''shoes'' \<notin> name ` set (categories catalogue @ [upper_shoes]) \<and>
   Category_create slugify (categories catalogue @ [upper_shoes])
     (empty_body\<lparr>b_name := Some ''shoes'', b_createdBy := Some 1\<rparr>) = Inr lower_shoes \<and>
   slug upper_shoes = Some ''shoes-1'' \<and>
   slug lower_shoes = Some ''shoes-2'' \<and>
   first_free_slug (categories catalogue) ''shoes'' ''shoes-1'' \<and>
   first_free_slug (categories catalogue @ [upper_shoes]) ''shoes'' ''shoes-2''"
proof -
  let ?b1 = "empty_body\<lparr>b_name := Some '' SHOES '', b_createdBy := Some 1\<rparr>"
  let ?b2 = "empty_body\<lparr>b_name := Some ''shoes'', b_createdBy := Some 1\<rparr>"
  let ?docs2 = "categories catalogue @ [upper_shoes]"
  have s1: "slugify ''SHOES'' = ''shoes''" and s2: "slugify ''shoes'' = ''shoes''"
    by (simp_all add: slugify_def is_alnum_def lower_char_def)
  have t: "js_trim ''shoes'' = ''shoes''" by (simp add: js_trim_def is_space_def)
  have new: "js_trim ''shoes'' \<notin> name ` set ?docs2"
    by (simp add: t catalogue_def shoes_def boots_def ankle_boots_def upper_shoes_def)
  have valid: "b_name ?b2 = Some ''shoes'' \<and> js_trim ''shoes'' \<noteq> [] \<and> b_createdBy ?b2 = Some 1 \<and>
          (case b_ctype ?b2 of None \<Rightarrow> True | Some t \<Rightarrow> t \<in> set category_types) \<and>
          (case b_images ?b2 of None \<Rightarrow> True | Some imgs \<Rightarrow> list_all valid_image imgs) \<and>
          js_trim ''shoes'' \<notin> name ` set ?docs2"
    using new by (simp add: empty_body_def t)
  have run1: "Category_create slugify (categories catalogue) ?b1 = Inr upper_shoes"
    by (simp add: Category_create_def catalogue_def shoes_def boots_def ankle_boots_def
        upper_shoes_def empty_body_def js_trim_def is_space_def fresh_oid_def stored_oids_def
        category_types_def pre_save_def s1 slug_while.simps findOne_slug_def suffixed_def
        string_of_nat.simps digit_char_def)
  have run2: "Category_create slugify ?docs2 ?b2 = Inr lower_shoes"
    by (simp add: Category_create_def catalogue_def shoes_def boots_def ankle_boots_def
        upper_shoes_def lower_shoes_def empty_body_def js_trim_def is_space_def fresh_oid_def
        stored_oids_def category_types_def pre_save_def s2 slug_while.simps findOne_slug_def
        suffixed_def string_of_nat.simps digit_char_def)
  note thm1 = slug_assigned_at_creation[of slugify "categories catalogue" upper_shoes ?b1]
  note thm2 = slug_assigned_at_creation[of slugify ?docs2 lower_shoes ?b2]
  from thm1 run1 have "\<exists>s. slug upper_shoes = Some s \<and>
      first_free_slug (categories catalogue) (slugify (name upper_shoes)) s" by blast
  then have f1: "first_free_slug (categories catalogue) ''shoes'' ''shoes-1''"
    by (simp add: upper_shoes_def s1)
  from thm2 valid obtain d where d: "Category_create slugify ?docs2 ?b2 = Inr d" by blast
  with thm2 have "\<exists>s. slug d = Some s \<and> first_free_slug ?docs2 (slugify (name d)) s" by blast
  with d run2 have f2: "first_free_slug ?docs2 ''shoes'' ''shoes-2''"
    by (simp add: lower_shoes_def s2)
  from run1 run2 new f1 f2 t show ?thesis by (simp add: upper_shoes_def lower_shoes_def)
qed

section \<open>Recursive expansion: termination and result\<close>

text \<open>
  The nodes of a returned tree below its root, in the order of the traversal, and whether
  every node of a tree has its \<^verbatim>\<open>children\<close> populated.
\<close>

fun nodes_below :: "pcat \<Rightarrow> pcat list" where
  "nodes_below (PCat d u ch) =
     (case ch of None \<Rightarrow> [] | Some ks \<Rightarrow> concat (map (\<lambda>k. k # nodes_below k) ks))"

fun expanded :: "pcat \<Rightarrow> bool" where
  "expanded (PCat d u ch) = (case ch of None \<Rightarrow> False | Some ks \<Rightarrow> list_all expanded ks)"

text \<open>
  The parent/child relation of a collection, as pairs (child id, parent id); the documents
  below a document in it; and a document that has, at or below it, a document that is its
  own ancestor.
\<close>

definition parent_rel :: "category list \<Rightarrow> (oid \<times> oid) set" where
  "parent_rel docs = {(cat_id d, p) | d p. d \<in> set docs \<and> parent d = Some p}"

definition descendants :: "category list \<Rightarrow> category \<Rightarrow> category set" where
  "descendants docs c = {d \<in> set docs. (cat_id d, cat_id c) \<in> (parent_rel docs)\<^sup>+}"

definition on_cycle_below :: "world \<Rightarrow> pcat \<Rightarrow> bool" where
  "on_cycle_below w c =
     (\<exists>y. (y, cat_id (doc c)) \<in> (parent_rel (categories w))\<^sup>* \<and> (y, y) \<in> (parent_rel (categories w))\<^sup>+)"

text \<open>
  The children of a node as \<open>populate_children\<close> leaves them, and the ids of the
  nodes below a root.
\<close>

definition kids_of :: "world \<Rightarrow> pcat \<Rightarrow> pcat list" where
  "kids_of w c = map (\<lambda>d. PCat d (find_user (users w) (createdBy d)) None)
                  (filter (\<lambda>d. parent d = Some (cat_id (doc c))) (categories w))"

definition ids_below :: "pcat \<Rightarrow> oid list" where
  "ids_below t = map (\<lambda>n. cat_id (doc n)) (nodes_below t)"

text \<open>
  The expansion of the small catalogue from its root, and the catalogue after an update
  that makes the second category a child of its own child.
\<close>

definition shoes_tree :: pcat where
  "shoes_tree =
     PCat shoes (Some ann)
       (Some [PCat boots (Some ann) (Some [PCat ankle_boots (Some ann) (Some [])])])"

definition cyclic_catalogue :: world where
  "cyclic_catalogue = snd (updateCategory catalogue 2 (empty_body\<lparr>b_parent := Some (Some 3)\<rparr>) [])"

lemmas catalogue_defs = catalogue_def shoes_def boots_def ankle_boots_def ann_def empty_body_def

lemmas update_defs = updateCategory_def findByIdAndUpdate_def findById_def validate_update_def
  apply_update_def images_from_files_def cloudinary_destroy_def valid_image_def image_types_def
  category_types_def js_trim_def is_space_def Let_def

subsection \<open>The recursion, one level at a time\<close>

lemma populate_children_eq: "populate_children w c = PCat (doc c) (creator c) (Some (kids_of w c))"
  by (simp add: populate_children_def kids_of_def)

lemma populate_each_Nil [simp]: "populate_each w [] = Some []"
  by (subst populate_each.simps) simp

lemma pcr_eq:
  "populateChildrenRecursively w c =
     do { ch' \<leftarrow> populate_each w (kids_of w c); Some (PCat (doc c) (creator c) (Some ch')) }"
  by (cases "kids_of w c") (simp_all add: populateChildrenRecursively_def populate_children_eq)

lemma populate_each_Cons:
  "populate_each w (c # cs) =
     do { c' \<leftarrow> populateChildrenRecursively w c; cs' \<leftarrow> populate_each w cs; Some (c' # cs') }"
  by (subst populate_each.simps) (simp add: populateChildrenRecursively_def)

lemma populate_each_Some_iff:
  "populate_each w ks = Some ts \<longleftrightarrow> list_all2 (\<lambda>k t. populateChildrenRecursively w k = Some t) ks ts"
proof (induction ks arbitrary: ts)
  case Nil
  then show ?case by auto
next
  case (Cons k ks)
  show ?case
    by (cases ts) (auto simp: populate_each_Cons Cons.IH bind_eq_Some_conv)
qed

lemma pcr_Some_iff:
  "populateChildrenRecursively w c = Some t \<longleftrightarrow>
     (\<exists>ts. list_all2 (\<lambda>k t. populateChildrenRecursively w k = Some t) (kids_of w c) ts \<and>
           t = PCat (doc c) (creator c) (Some ts))"
  by (subst pcr_eq) (auto simp: bind_eq_Some_conv populate_each_Some_iff)

lemma pcr_SomeD:
  "populateChildrenRecursively w c = Some t \<Longrightarrow>
     \<exists>ts. list_all2 (\<lambda>k t. populateChildrenRecursively w k = Some t) (kids_of w c) ts \<and>
          t = PCat (doc c) (creator c) (Some ts)"
  by (rule pcr_Some_iff[THEN iffD1])

lemma pcr_root: "populateChildrenRecursively w c = Some t \<Longrightarrow> doc t = doc c \<and> creator t = creator c"
  by (auto dest: pcr_SomeD)

lemma pcr_leaf:
  "kids_of w c = [] \<Longrightarrow> populateChildrenRecursively w c = Some (PCat (doc c) (creator c) (Some []))"
  by (simp add: pcr_eq)

subsection \<open>Termination\<close>

lemma finite_parent_rel: "finite (parent_rel docs)"
proof -
  have "parent_rel docs \<subseteq> (\<lambda>d. (cat_id d, the (parent d))) ` set docs"
    by (force simp: parent_rel_def)
  then show ?thesis by (rule finite_subset) simp
qed

lemma parent_relI: "d \<in> set docs \<Longrightarrow> parent d = Some p \<Longrightarrow> (cat_id d, p) \<in> parent_rel docs"
  by (auto simp: parent_rel_def)

lemma kid_in_parent_rel:
  "k \<in> set (kids_of w c) \<Longrightarrow> (cat_id (doc k), cat_id (doc c)) \<in> parent_rel (categories w)"
  by (auto simp: kids_of_def parent_rel_def)

lemma parent_rel_kid:
  "(z, cat_id (doc c)) \<in> parent_rel (categories w) \<Longrightarrow> \<exists>k \<in> set (kids_of w c). cat_id (doc k) = z"
  by (auto simp: kids_of_def parent_rel_def image_iff)

lemma populate_each_total:
  "(\<And>k. k \<in> set ks \<Longrightarrow> \<exists>t. populateChildrenRecursively w k = Some t)
     \<Longrightarrow> \<exists>ts. populate_each w ks = Some ts"
proof (induction ks)
  case Nil
  show ?case by simp
next
  case (Cons k ks)
  from Cons.prems obtain t where "populateChildrenRecursively w k = Some t" by auto
  moreover from Cons obtain ts where "populate_each w ks = Some ts" by auto
  ultimately show ?case by (simp add: populate_each_Cons)
qed

lemma pcr_total:
  assumes "acyclic (parent_rel (categories w))"
  shows "\<exists>t. populateChildrenRecursively w c = Some t"
proof -
  from finite_parent_rel assms have "wf (parent_rel (categories w))" by (rule finite_acyclic_wf)
  then have "\<forall>c. cat_id (doc c) = x \<longrightarrow> (\<exists>t. populateChildrenRecursively w c = Some t)" for x
  proof (induction x rule: wf_induct_rule)
    case (less x)
    show ?case
    proof (intro allI impI)
      fix c assume c: "cat_id (doc c) = x"
      have "\<exists>t. populateChildrenRecursively w k = Some t" if "k \<in> set (kids_of w c)" for k
        using kid_in_parent_rel[OF that] less c by auto
      then obtain ts where "populate_each w (kids_of w c) = Some ts"
        using populate_each_total by blast
      then show "\<exists>t. populateChildrenRecursively w c = Some t" by (simp add: pcr_eq)
    qed
  qed
  then show ?thesis by blast
qed

lemma on_cycle_below_kid:
  assumes "on_cycle_below w c"
  shows "\<exists>k \<in> set (kids_of w c). on_cycle_below w k"
proof -
  let ?R = "parent_rel (categories w)"
  from assms obtain y where y: "(y, cat_id (doc c)) \<in> ?R\<^sup>*" "(y, y) \<in> ?R\<^sup>+"
    by (auto simp: on_cycle_below_def)
  then have "(y, cat_id (doc c)) \<in> ?R\<^sup>+" by (metis rtranclD)
  then obtain z where z: "(y, z) \<in> ?R\<^sup>*" "(z, cat_id (doc c)) \<in> ?R" by (metis tranclD2)
  from parent_rel_kid[OF z(2)] obtain k where "k \<in> set (kids_of w c)" "cat_id (doc k) = z" by blast
  with y z show ?thesis by (auto simp: on_cycle_below_def)
qed

lemma populate_each_no_cycle:
  assumes "populate_each w cs = Some ts"
  shows "\<forall>c \<in> set cs. \<not> on_cycle_below w c"
proof -
  have step: "\<forall>c \<in> set cs. \<not> on_cycle_below w c"
    if IH: "\<And>w cs ts. pe w cs = Some ts \<Longrightarrow> \<forall>c \<in> set cs. \<not> on_cycle_below w c"
    and body: "(case cs of
        [] \<Rightarrow> Some []
      | child # rest \<Rightarrow>
          do {
            child' \<leftarrow>
              (let category = populate_children w child in
               case children category of
                 None \<Rightarrow> Some category
               | Some ch \<Rightarrow>
                   if length ch > 0
                   then do {
                     ch' \<leftarrow> pe w ch;
                     Some (PCat (doc category) (creator category) (Some ch'))
                   }
                   else Some category);
            rest' \<leftarrow> pe w rest;
            Some (child' # rest')
          }) = Some ts"
    for pe w cs ts
  proof (cases cs)
    case Nil
    then show ?thesis by simp
  next
    case (Cons child rest)
    with body obtain rest' where r': "pe w rest = Some rest'"
      by (auto simp: bind_eq_Some_conv)
    then have rest: "\<forall>c \<in> set rest. \<not> on_cycle_below w c" by (rule IH)
    have kids: "\<forall>k \<in> set (kids_of w child). \<not> on_cycle_below w k"
    proof (cases "kids_of w child")
      case Nil
      then show ?thesis by simp
    next
      case (Cons k ks)
      with body \<open>cs = child # rest\<close> obtain ch' where "pe w (kids_of w child) = Some ch'"
        by (auto simp: populate_children_eq bind_eq_Some_conv)
      then show ?thesis by (rule IH)
    qed
    then have "\<not> on_cycle_below w child" using on_cycle_below_kid by blast
    with rest Cons show ?thesis by simp
  qed
  show ?thesis
    by (rule populate_each.raw_induct[where P = "\<lambda>w cs ts. \<forall>c \<in> set cs. \<not> on_cycle_below w c",
          OF step assms])
qed

lemma pcr_diverges_on_cycle:
  assumes "on_cycle_below w c"
  shows "populateChildrenRecursively w c = None"
proof (rule ccontr)
  assume "populateChildrenRecursively w c \<noteq> None"
  then obtain ts where "populate_each w (kids_of w c) = Some ts"
    by (auto simp: pcr_eq bind_eq_Some_conv)
  then have "\<forall>k \<in> set (kids_of w c). \<not> on_cycle_below w k" by (rule populate_each_no_cycle)
  with on_cycle_below_kid[OF assms] show False by blast
qed

lemma acyclic_catalogue: "acyclic (parent_rel (categories catalogue))"
  by (rule acyclicI_order[where f = id])
     (auto simp: parent_rel_def catalogue_def shoes_def boots_def ankle_boots_def)

lemma cyclic_catalogue_eq:
  "cyclic_catalogue = catalogue\<lparr>categories := [shoes, boots\<lparr>parent := Some 3\<rparr>, ankle_boots],
                                effects := [DbUpdate 2]\<rparr>"
  by (simp add: cyclic_catalogue_def catalogue_defs update_defs)

lemma boots_on_cycle: "on_cycle_below cyclic_catalogue (PCat (boots\<lparr>parent := Some 3\<rparr>) (Some ann) None)"
proof -
  let ?R = "parent_rel (categories cyclic_catalogue)"
  have "(2, 3) \<in> ?R"
    using parent_relI[of "boots\<lparr>parent := Some 3\<rparr>" "categories cyclic_catalogue" 3]
    by (simp add: cyclic_catalogue_eq catalogue_defs)
  moreover have "(3, 2) \<in> ?R"
    using parent_relI[of ankle_boots "categories cyclic_catalogue" 2]
    by (simp add: cyclic_catalogue_eq catalogue_defs)
  ultimately have "(2, 2) \<in> ?R\<^sup>+" by (metis trancl.simps)
  moreover have "(2, cat_id (boots\<lparr>parent := Some 3\<rparr>)) \<in> ?R\<^sup>*" by (simp add: boots_def)
  ultimately show ?thesis unfolding on_cycle_below_def by (intro exI[of _ 2]) simp
qed

lemma fetch_on_cycle_never_returns: "getCategory cyclic_catalogue ''boots'' = None"
proof -
  have "findOne_slug (categories cyclic_catalogue) ''boots'' = Some (boots\<lparr>parent := Some 3\<rparr>)"
    by (simp add: findOne_slug_def cyclic_catalogue_eq catalogue_defs)
  moreover have "find_user (users cyclic_catalogue) (createdBy (boots\<lparr>parent := Some 3\<rparr>)) = Some ann"
    by (simp add: find_user_def cyclic_catalogue_eq catalogue_defs)
  ultimately show ?thesis
    using pcr_diverges_on_cycle[OF boots_on_cycle] by (simp add: getCategory_def)
qed

text \<open>
  C3.  In a collection whose parent/child relation is acyclic the expansion of any node
  returns.  A node without children is returned at once, with the empty list as its
  children.  Nothing in the recursion looks for a cycle: from a node that has a cycle at or
  below it the expansion never returns.
\<close>

theorem expansion_terminates_when_acyclic:
  "(acyclic (parent_rel (categories w)) \<longrightarrow> (\<exists>t. populateChildrenRecursively w c = Some t)) \<and>
   (filter (\<lambda>d. parent d = Some (cat_id (doc c))) (categories w) = [] \<longrightarrow>
      populateChildrenRecursively w c = Some (PCat (doc c) (creator c) (Some []))) \<and>
   (on_cycle_below w c \<longrightarrow> populateChildrenRecursively w c = None)"
proof (intro conjI impI)
  assume "acyclic (parent_rel (categories w))"
  then show "\<exists>t. populateChildrenRecursively w c = Some t" by (rule pcr_total)
next
  assume "filter (\<lambda>d. parent d = Some (cat_id (doc c))) (categories w) = []"
  then have "kids_of w c = []" by (simp add: kids_of_def)
  then show "populateChildrenRecursively w c = Some (PCat (doc c) (creator c) (Some []))"
    by (rule pcr_leaf)
next
  assume "on_cycle_below w c"
  then show "populateChildrenRecursively w c = None" by (rule pcr_diverges_on_cycle)
qed

theorem expansion_terminates_when_acyclic_witness:
  "acyclic (parent_rel (categories catalogue)) \<and>
   (\<exists>t. populateChildrenRecursively catalogue (PCat shoes (Some ann) None) = Some t) \<and>
   populateChildrenRecursively catalogue (PCat shoes (Some ann) None) = Some shoes_tree \<and>
   filter (\<lambda>d. parent d = Some (cat_id ankle_boots)) (categories catalogue) = [] \<and>
   populateChildrenRecursively catalogue (PCat ankle_boots (Some ann) None)
     = Some (PCat ankle_boots (Some ann) (Some [])) \<and>
   on_cycle_below cyclic_catalogue (PCat (boots\<lparr>parent := Some 3\<rparr>) (Some ann) None) \<and>
   populateChildrenRecursively cyclic_catalogue (PCat (boots\<lparr>parent := Some 3\<rparr>) (Some ann) None) = None"
proof -
  have leaf: "filter (\<lambda>d. parent d = Some (cat_id ankle_boots)) (categories catalogue) = []"
    by (simp add: catalogue_defs)
  have run: "populateChildrenRecursively catalogue (PCat shoes (Some ann) None) = Some shoes_tree"
    by (simp add: pcr_eq populate_each_Cons kids_of_def find_user_def catalogue_defs shoes_tree_def)
  from expansion_terminates_when_acyclic[of catalogue "PCat shoes (Some ann) None"] acyclic_catalogue
  have "\<exists>t. populateChildrenRecursively catalogue (PCat shoes (Some ann) None) = Some t" by blast
  moreover from expansion_terminates_when_acyclic[of catalogue "PCat ankle_boots (Some ann) None"] leaf
  have "populateChildrenRecursively catalogue (PCat ankle_boots (Some ann) None)
     = Some (PCat ankle_boots (Some ann) (Some []))" by simp
  moreover from expansion_terminates_when_acyclic[of cyclic_catalogue
      "PCat (boots\<lparr>parent := Some 3\<rparr>) (Some ann) None"] boots_on_cycle
  have "populateChildrenRecursively cyclic_catalogue
      (PCat (boots\<lparr>parent := Some 3\<rparr>) (Some ann) None) = None" by blast
  ultimately show ?thesis using acyclic_catalogue run leaf boots_on_cycle by simp
qed

subsection \<open>The returned tree\<close>

lemma list_all2_result_of:
  "list_all2 P ks ts \<Longrightarrow> t \<in> set ts \<Longrightarrow> \<exists>k \<in> set ks. P k t"
  by (induction rule: list_all2_induct) auto

lemma list_all2_result_for:
  "list_all2 P ks ts \<Longrightarrow> k \<in> set ks \<Longrightarrow> \<exists>t \<in> set ts. P k t"
  by (induction rule: list_all2_induct) auto

lemma results_keep_docs:
  "list_all2 (\<lambda>k t. populateChildrenRecursively w k = Some t) ks ts \<Longrightarrow>
     map doc ts = map doc ks \<and> map creator ts = map creator ks"
  by (induction rule: list_all2_induct) (auto dest: pcr_root)

lemma nodes_below_Some [simp]:
  "nodes_below (PCat d u (Some ts)) = concat (map (\<lambda>k. k # nodes_below k) ts)"
  by simp

lemma pcr_expanded: "populateChildrenRecursively w c = Some t \<Longrightarrow> expanded t"
proof (induction t arbitrary: c)
  case (PCat d u ch)
  from PCat.prems obtain ts where ts: "ch = Some ts"
    "list_all2 (\<lambda>k t. populateChildrenRecursively w k = Some t) (kids_of w c) ts"
    by (auto dest: pcr_SomeD)
  have "expanded t'" if "t' \<in> set ts" for t'
  proof -
    from list_all2_result_of[OF ts(2) that] obtain k where "populateChildrenRecursively w k = Some t'"
      by blast
    with that ts(1) show ?thesis by (intro PCat.IH[of ts t' k]) auto
  qed
  with ts(1) show ?case by (simp add: list_all_iff)
qed

lemma node_is_result:
  "populateChildrenRecursively w c = Some t \<Longrightarrow> n \<in> set (nodes_below t) \<Longrightarrow>
     \<exists>p k. k \<in> set (kids_of w p) \<and> populateChildrenRecursively w k = Some n"
proof (induction t arbitrary: c)
  case (PCat d u ch)
  from PCat.prems(1) obtain ts where ts: "ch = Some ts"
    "list_all2 (\<lambda>k t. populateChildrenRecursively w k = Some t) (kids_of w c) ts"
    by (auto dest: pcr_SomeD)
  from PCat.prems(2) ts(1) obtain t' where t': "t' \<in> set ts" "n = t' \<or> n \<in> set (nodes_below t')"
    by auto
  from list_all2_result_of[OF ts(2) t'(1)] obtain k where
    k: "k \<in> set (kids_of w c)" "populateChildrenRecursively w k = Some t'" by blast
  from t'(2) show ?case
  proof
    assume "n = t'" with k show ?thesis by blast
  next
    assume "n \<in> set (nodes_below t')"
    with k(2) t'(1) ts(1) show ?thesis by (intro PCat.IH[of ts t' k]) auto
  qed
qed

lemma result_children:
  "populateChildrenRecursively w c = Some t \<Longrightarrow>
     \<exists>ks. children t = Some ks \<and>
          map doc ks = filter (\<lambda>d. parent d = Some (cat_id (doc t))) (categories w)"
  by (auto simp: kids_of_def comp_def dest!: pcr_SomeD results_keep_docs)

lemma kid_facts:
  "k \<in> set (kids_of w p) \<Longrightarrow>
     doc k \<in> set (categories w) \<and> creator k = find_user (users w) (createdBy (doc k))"
  by (auto simp: kids_of_def)

lemma node_facts:
  assumes "populateChildrenRecursively w c = Some t" and "n \<in> set (nodes_below t)"
  shows "doc n \<in> set (categories w) \<and> creator n = find_user (users w) (createdBy (doc n)) \<and>
    (\<exists>ks. children n = Some ks \<and>
          map doc ks = filter (\<lambda>d. parent d = Some (cat_id (doc n))) (categories w))"
proof -
  from node_is_result[OF assms] obtain p k where
    k: "k \<in> set (kids_of w p)" "populateChildrenRecursively w k = Some n" by blast
  from kid_facts[OF k(1)] pcr_root[OF k(2)] result_children[OF k(2)] show ?thesis by simp
qed

lemma ids_below_Some:
  "ids_below (PCat d u (Some ts)) = concat (map (\<lambda>k. cat_id (doc k) # ids_below k) ts)"
  by (simp add: ids_below_def map_concat comp_def)

lemma set_ids_below:
  "populateChildrenRecursively w c = Some t \<Longrightarrow>
     set (ids_below t) = {y. (y, cat_id (doc c)) \<in> (parent_rel (categories w))\<^sup>+}"
proof (induction t arbitrary: c)
  case (PCat d u ch)
  let ?R = "parent_rel (categories w)"
  from pcr_SomeD[OF PCat.prems] obtain ts where ts: "ch = Some ts"
    "list_all2 (\<lambda>k t. populateChildrenRecursively w k = Some t) (kids_of w c) ts"
    by auto
  have IH: "set (ids_below t') = {y. (y, cat_id (doc k)) \<in> ?R\<^sup>+}"
    if "t' \<in> set ts" "populateChildrenRecursively w k = Some t'" for t' k
    using that ts(1) by (intro PCat.IH[of ts t' k]) auto
  show ?case
  proof (intro set_eqI iffI)
    fix y assume "y \<in> set (ids_below (PCat d u ch))"
    then obtain t' where t': "t' \<in> set ts" "y = cat_id (doc t') \<or> y \<in> set (ids_below t')"
      by (auto simp: ts(1) ids_below_Some)
    from list_all2_result_of[OF ts(2) t'(1)] obtain k where
      k: "k \<in> set (kids_of w c)" "populateChildrenRecursively w k = Some t'" by blast
    from k(2) have dk: "doc t' = doc k" by (simp add: pcr_root)
    from kid_in_parent_rel[OF k(1)] have r: "(cat_id (doc k), cat_id (doc c)) \<in> ?R" .
    from t'(2) show "y \<in> {y. (y, cat_id (doc c)) \<in> ?R\<^sup>+}"
    proof
      assume "y = cat_id (doc t')" with dk r show ?thesis by auto
    next
      assume "y \<in> set (ids_below t')"
      with IH[OF t'(1) k(2)] have "(y, cat_id (doc k)) \<in> ?R\<^sup>+" by simp
      with r show ?thesis by (auto intro: trancl_into_trancl)
    qed
  next
    fix y assume "y \<in> {y. (y, cat_id (doc c)) \<in> ?R\<^sup>+}"
    then have "(y, cat_id (doc c)) \<in> ?R\<^sup>+" by simp
    then obtain z where z: "(y, z) \<in> ?R\<^sup>*" "(z, cat_id (doc c)) \<in> ?R" by (metis tranclD2)
    from parent_rel_kid[OF z(2)] obtain k where k: "k \<in> set (kids_of w c)" "cat_id (doc k) = z"
      by blast
    from list_all2_result_for[OF ts(2) k(1)] obtain t' where
      t': "t' \<in> set ts" "populateChildrenRecursively w k = Some t'" by blast
    from t'(2) have dk: "doc t' = doc k" by (simp add: pcr_root)
    from z(1) have "y = z \<or> (y, z) \<in> ?R\<^sup>+" by (metis rtranclD)
    then have "y = cat_id (doc t') \<or> y \<in> set (ids_below t')"
      using IH[OF t'] k(2) dk by auto
    with t'(1) show "y \<in> set (ids_below (PCat d u ch))"
      by (auto simp: ts(1) ids_below_Some)
  qed
qed

lemma single_valued_parent_rel:
  assumes "distinct (map cat_id docs)"
  shows "single_valued (parent_rel docs)"
proof (rule single_valuedI)
  fix x y z assume "(x, y) \<in> parent_rel docs" "(x, z) \<in> parent_rel docs"
  then obtain d d' where d: "d \<in> set docs" "cat_id d = x" "parent d = Some y"
    and d': "d' \<in> set docs" "cat_id d' = x" "parent d' = Some z"
    by (auto simp: parent_rel_def)
  from assms have "inj_on cat_id (set docs)" by (simp add: distinct_map)
  from inj_onD[OF this, of d d'] d d' have "d = d'" by simp
  with d(3) d'(3) show "y = z" by simp
qed

lemma siblings_disjoint:
  assumes ac: "acyclic R" and sv: "single_valued R"
    and z1: "(z1, x) \<in> R" and z2: "(z2, x) \<in> R" and ne: "z1 \<noteq> z2"
    and y1: "(y, z1) \<in> R\<^sup>*" and y2: "(y, z2) \<in> R\<^sup>*"
  shows False
proof -
  have up: False if "(a, b) \<in> R\<^sup>*" "a \<noteq> b" "(a, x) \<in> R" "(b, x) \<in> R" for a b
  proof -
    from that(1,2) have "(a, b) \<in> R\<^sup>+" by (metis rtranclD)
    then obtain u where u: "(a, u) \<in> R" "(u, b) \<in> R\<^sup>*" by (metis tranclD)
    from sv u(1) that(3) have "u = x" by (auto dest: single_valuedD)
    with u(2) that(4) have "(x, x) \<in> R\<^sup>+" by (auto intro: rtrancl_into_trancl1)
    with ac show False by (auto simp: acyclic_def)
  qed
  from single_valued_confluent[OF sv y1 y2] show False
  proof
    assume "(z1, z2) \<in> R\<^sup>*" then show False using ne z1 z2 by (rule up)
  next
    assume "(z2, z1) \<in> R\<^sup>*" then show False using ne[symmetric] z2 z1 by (rule up)
  qed
qed

lemma distinct_ids_below:
  assumes ac: "acyclic (parent_rel (categories w))" and di: "distinct (map cat_id (categories w))"
  shows "populateChildrenRecursively w c = Some t \<Longrightarrow> distinct (ids_below t)"
proof (induction t arbitrary: c)
  case (PCat d u ch)
  let ?R = "parent_rel (categories w)"
  let ?piece = "\<lambda>k. cat_id (doc k) # ids_below k"
  from pcr_SomeD[OF PCat.prems] obtain ts where ts: "ch = Some ts"
    "list_all2 (\<lambda>k t. populateChildrenRecursively w k = Some t) (kids_of w c) ts"
    by auto
  from di have sv: "single_valued ?R" by (rule single_valued_parent_rel)
  have heads: "distinct (map (\<lambda>k. cat_id (doc k)) ts)"
  proof -
    from results_keep_docs[OF ts(2)] have "map doc ts = map doc (kids_of w c)" by simp
    then have "map cat_id (map doc ts) = map cat_id (map doc (kids_of w c))" by simp
    then have "map (\<lambda>k. cat_id (doc k)) ts =
        map cat_id (filter (\<lambda>d. parent d = Some (cat_id (doc c))) (categories w))"
      by (simp add: kids_of_def comp_def)
    with di show ?thesis by (simp add: distinct_map_filter)
  qed
  have facts: "\<exists>k. k \<in> set (kids_of w c) \<and> populateChildrenRecursively w k = Some t' \<and>
      doc t' = doc k \<and> set (ids_below t') = {y. (y, cat_id (doc k)) \<in> ?R\<^sup>+} \<and>
      distinct (ids_below t')" if "t' \<in> set ts" for t'
  proof -
    from list_all2_result_of[OF ts(2) that] obtain k where
      k: "k \<in> set (kids_of w c)" "populateChildrenRecursively w k = Some t'" by blast
    from k(2) have "distinct (ids_below t')" using that ts(1) by (intro PCat.IH[of ts t' k]) auto
    moreover note k set_ids_below[OF k(2)] pcr_root[OF k(2)]
    ultimately show ?thesis by blast
  qed
  have "distinct (concat (map ?piece ts))"
  proof (rule distinct_concat)
    from heads have "distinct (map (hd \<circ> ?piece) ts)" by (simp add: comp_def)
    then show "distinct (map ?piece ts)" by (simp add: distinct_map inj_on_def)
  next
    fix ys assume "ys \<in> set (map ?piece ts)"
    then obtain t' where t': "t' \<in> set ts" "ys = ?piece t'" by auto
    from facts[OF t'(1)] obtain k where k: "doc t' = doc k"
      "set (ids_below t') = {y. (y, cat_id (doc k)) \<in> ?R\<^sup>+}" "distinct (ids_below t')" by blast
    from ac have "(cat_id (doc k), cat_id (doc k)) \<notin> ?R\<^sup>+" by (auto simp: acyclic_def)
    with k t'(2) show "distinct ys" by simp
  next
    fix ys zs assume "ys \<in> set (map ?piece ts)" "zs \<in> set (map ?piece ts)" "ys \<noteq> zs"
    then obtain t1 t2 where t: "t1 \<in> set ts" "ys = ?piece t1" "t2 \<in> set ts" "zs = ?piece t2" "t1 \<noteq> t2"
      by auto
    from heads t(1,3,5) have ne: "cat_id (doc t1) \<noteq> cat_id (doc t2)"
      by (auto simp: distinct_map dest: inj_onD)
    from facts[OF t(1)] obtain k1 where k1: "k1 \<in> set (kids_of w c)" "doc t1 = doc k1"
      "set (ids_below t1) = {y. (y, cat_id (doc k1)) \<in> ?R\<^sup>+}" by blast
    from facts[OF t(3)] obtain k2 where k2: "k2 \<in> set (kids_of w c)" "doc t2 = doc k2"
      "set (ids_below t2) = {y. (y, cat_id (doc k2)) \<in> ?R\<^sup>+}" by blast
    have s1: "set ys \<subseteq> {y. (y, cat_id (doc k1)) \<in> ?R\<^sup>*}"
      unfolding t(2) using k1(2,3) by auto
    have s2: "set zs \<subseteq> {y. (y, cat_id (doc k2)) \<in> ?R\<^sup>*}"
      unfolding t(4) using k2(2,3) by auto
    show "set ys \<inter> set zs = {}"
    proof (rule ccontr)
      assume "set ys \<inter> set zs \<noteq> {}"
      then obtain y where "y \<in> set ys" "y \<in> set zs" by auto
      with s1 s2 have y: "(y, cat_id (doc k1)) \<in> ?R\<^sup>*" "(y, cat_id (doc k2)) \<in> ?R\<^sup>*"
        by blast+
      from ne k1(2) k2(2) have "cat_id (doc k1) \<noteq> cat_id (doc k2)" by simp
      with ac sv kid_in_parent_rel[OF k1(1)] kid_in_parent_rel[OF k2(1)]
      show False using y by (rule siblings_disjoint)
    qed
  qed
  with ts(1) show ?case by (simp add: ids_below_Some)
qed

lemma docs_below:
  assumes di: "distinct (map cat_id (categories w))"
    and t: "populateChildrenRecursively w c = Some t"
  shows "set (map doc (nodes_below t)) = descendants (categories w) (doc c)"
proof (intro set_eqI iffI)
  fix d assume "d \<in> set (map doc (nodes_below t))"
  then obtain n where n: "n \<in> set (nodes_below t)" "d = doc n" by auto
  then have "cat_id d \<in> set (ids_below t)" by (auto simp: ids_below_def)
  with set_ids_below[OF t] node_facts[OF t n(1)] n(2)
  show "d \<in> descendants (categories w) (doc c)" by (simp add: descendants_def)
next
  fix d assume "d \<in> descendants (categories w) (doc c)"
  then have d: "d \<in> set (categories w)" "cat_id d \<in> set (ids_below t)"
    using set_ids_below[OF t] by (simp_all add: descendants_def)
  then obtain n where n: "n \<in> set (nodes_below t)" "cat_id (doc n) = cat_id d"
    by (auto simp: ids_below_def)
  from di have "inj_on cat_id (set (categories w))" by (simp add: distinct_map)
  from inj_onD[OF this n(2)] node_facts[OF t n(1)] d(1) have "doc n = d" by simp
  with n(1) show "d \<in> set (map doc (nodes_below t))" by force
qed

lemma distinct_docs_below:
  assumes "acyclic (parent_rel (categories w))" and "distinct (map cat_id (categories w))"
    and "populateChildrenRecursively w c = Some t"
  shows "distinct (map doc (nodes_below t))"
proof -
  from distinct_ids_below[OF assms] have "distinct (map cat_id (map doc (nodes_below t)))"
    by (simp add: ids_below_def comp_def)
  then show ?thesis by (simp only: distinct_map)
qed

lemma fetch_shoes:
  "getCategory catalogue ''shoes'' =
     Some (Inr \<lparr>status = 200, message = ''Category fetched successfully with nested children'',
                payload = PTree shoes_tree\<rparr>)"
  by (simp add: getCategory_def pcr_eq populate_each_Cons kids_of_def findOne_slug_def
      find_user_def catalogue_defs shoes_tree_def)

text \<open>
  C2.  In a collection with an acyclic parent/child relation and pairwise different ids,
  fetching a category by its slug returns a tree whose root is that category and whose
  nodes below the root are exactly the descendants of the category, each once (so their
  number is the number of descendants).  Every node, leaves included, has a populated
  \<^verbatim>\<open>children\<close> list, holding exactly the documents whose parent it is (the empty
  list for a leaf), and every node below the root carries the populated creator: the user
  its \<^verbatim>\<open>createdBy\<close> names.
\<close>

theorem fetch_by_slug_expands_all_descendants:
  assumes ac: "acyclic (parent_rel (categories w))"
    and di: "distinct (map cat_id (categories w))"
    and c: "findOne_slug (categories w) s = Some c"
  shows "\<exists>t. getCategory w s =
        Some (Inr \<lparr>status = 200,
                   message = ''Category fetched successfully with nested children'',
                   payload = PTree t\<rparr>) \<and>
      doc t = c \<and>
      expanded t \<and>
      (\<forall>n \<in> set (t # nodes_below t).
         \<exists>ks. children n = Some ks \<and>
              map doc ks = filter (\<lambda>d. parent d = Some (cat_id (doc n))) (categories w)) \<and>
      (\<forall>n \<in> set (nodes_below t). creator n = find_user (users w) (createdBy (doc n))) \<and>
      set (map doc (nodes_below t)) = descendants (categories w) c \<and>
      distinct (map doc (nodes_below t)) \<and>
      length (nodes_below t) = card (descendants (categories w) c)"
proof -
  let ?root = "PCat c (find_user (users w) (createdBy c)) None"
  from pcr_total[OF ac] obtain t where t: "populateChildrenRecursively w ?root = Some t" by blast
  have g: "getCategory w s = Some (Inr \<lparr>status = 200,
                   message = ''Category fetched successfully with nested children'',
                   payload = PTree t\<rparr>)"
    using c t by (simp add: getCategory_def)
  from pcr_root[OF t] have r: "doc t = c" by simp
  have ch: "\<forall>n \<in> set (t # nodes_below t).
         \<exists>ks. children n = Some ks \<and>
              map doc ks = filter (\<lambda>d. parent d = Some (cat_id (doc n))) (categories w)"
    using result_children[OF t] node_facts[OF t] by auto
  have cr: "\<forall>n \<in> set (nodes_below t). creator n = find_user (users w) (createdBy (doc n))"
    using node_facts[OF t] by blast
  from docs_below[OF di t] have ds: "set (map doc (nodes_below t)) = descendants (categories w) c"
    by simp
  from distinct_docs_below[OF ac di t] have dd: "distinct (map doc (nodes_below t))" .
  from distinct_card[OF dd] ds have "length (nodes_below t) = card (descendants (categories w) c)"
    by simp
  with g r pcr_expanded[OF t] ch cr ds dd show ?thesis by blast
qed

theorem fetch_by_slug_expands_all_descendants_witness:
  "acyclic (parent_rel (categories catalogue)) \<and>
   distinct (map cat_id (categories catalogue)) \<and>
   findOne_slug (categories catalogue) ''shoes'' = Some shoes \<and>
   getCategory catalogue ''shoes'' =
     Some (Inr \<lparr>status = 200, message = ''Category fetched successfully with nested children'',
                payload = PTree shoes_tree\<rparr>) \<and>
   map doc (nodes_below shoes_tree) = [boots, ankle_boots] \<and>
   expanded shoes_tree \<and>
   descendants (categories catalogue) shoes = {boots, ankle_boots} \<and>
   card (descendants (categories catalogue) shoes) = 2"
proof -
  have h2: "distinct (map cat_id (categories catalogue))" by (simp add: catalogue_defs)
  have h3: "findOne_slug (categories catalogue) ''shoes'' = Some shoes"
    by (simp add: findOne_slug_def catalogue_defs)
  have nb: "map doc (nodes_below shoes_tree) = [boots, ankle_boots]" by (simp add: shoes_tree_def)
  from fetch_by_slug_expands_all_descendants[OF acyclic_catalogue h2 h3] fetch_shoes
  have "expanded shoes_tree"
    and "set (map doc (nodes_below shoes_tree)) = descendants (categories catalogue) shoes"
    and "length (nodes_below shoes_tree) = card (descendants (categories catalogue) shoes)"
    by auto
  with nb have "descendants (categories catalogue) shoes = {boots, ankle_boots}"
    "card (descendants (categories catalogue) shoes) = 2" 
    by (auto simp: shoes_tree_def)
  with acyclic_catalogue h2 h3 fetch_shoes nb \<open>expanded shoes_tree\<close> show ?thesis by simp
qed

section \<open>Update and delete: the effects\<close>

text \<open>
  The ids that the loop over a list of images passes to the media store: one entry for
  each image whose \<^verbatim>\<open>id\<close> is truthy, in the order of the images.
\<close>

definition asset_ids :: "image list \<Rightarrow> string list" where
  "asset_ids imgs =
     concat (map (\<lambda>img. case img_id img of None \<Rightarrow> [] | Some i \<Rightarrow> if i \<noteq> [] then [i] else []) imgs)"

definition new_banner :: upload where
  "new_banner = \<lparr>path = ''https://media/new-banner.png'', fieldname = ''banner''\<rparr>"

definition new_thumb :: upload where
  "new_thumb = \<lparr>path = ''https://media/new-thumb.png'', fieldname = ''thumbnail''\<rparr>"

lemmas upload_defs = new_banner_def new_thumb_def

text \<open>A category created with two uploaded files, and the catalogue after its creation.\<close>

definition sandals_body :: body where
  "sandals_body = empty_body\<lparr>b_name := Some ''Sandals'', b_altText := Some ''summer''\<rparr>"

definition sandals :: category where
  "sandals = \<lparr>cat_id = 13, name = ''Sandals'', slug = Some ''sandals'', ctype = ''normal'',
      parent = None, description = None, active = True,
      images = [\<lparr>url = ''https://media/new-banner.png'', altText = ''summer'',
                 itype = ''banner'', image_oid = Some 14\<rparr>,
                \<lparr>url = ''https://media/new-thumb.png'', altText = ''summer'',
                 itype = ''thumbnail'', image_oid = Some 15\<rparr>],
      createdBy = 1\<rparr>"

lemmas create_defs = createCategory_def Category_create_def pre_save_def fresh_oid_def stored_oids_def
  images_from_files_def valid_image_def image_types_def category_types_def js_trim_def
  is_space_def Let_def slug_while.simps findOne_slug_def suffixed_def string_of_nat.simps
  digit_char_def

definition with_sandals :: world where
  "with_sandals = catalogue\<lparr>categories := [shoes, boots, ankle_boots, sandals],
                             effects := [DbInsert 13]\<rparr>"

lemma slugify_Sandals: "slugify ''Sandals'' = ''sandals''"
  by (simp add: slugify_def is_alnum_def lower_char_def)

lemma create_sandals:
  "createCategory slugify catalogue 1 sandals_body [new_banner, new_thumb] =
     (Inr \<lparr>status = 201, message = ''Category created successfully'',
           payload = PCategory (Some sandals)\<rparr>,
      with_sandals)"
  by (simp add: create_defs catalogue_defs upload_defs sandals_body_def sandals_def with_sandals_def slugify_Sandals)

lemma findById_None_iff: "findById docs i = None \<longleftrightarrow> i \<notin> cat_id ` set docs"
  by (auto simp: findById_def find_None_iff)

lemma findOne_slug_None_iff: "findOne_slug docs s = None \<longleftrightarrow> Some s \<notin> slug ` set docs"
  using taken_iff[of docs s] unfolding taken_def by (cases "findOne_slug docs s") auto

lemma destroy_images_effects:
  "effects (destroy_images imgs w) = effects w @ map MediaDestroy (asset_ids imgs)"
  by (induction imgs arbitrary: w)
     (auto simp: asset_ids_def cloudinary_destroy_def split: option.splits)

lemma destroy_images_categories [simp]: "categories (destroy_images imgs w) = categories w"
  by (induction imgs arbitrary: w) (auto simp: cloudinary_destroy_def split: option.splits)

lemma destroy_images_users [simp]: "users (destroy_images imgs w) = users w"
  by (induction imgs arbitrary: w) (auto simp: cloudinary_destroy_def split: option.splits)

lemma asset_ids_Nil [simp]: "asset_ids [] = []"
  by (simp add: asset_ids_def)

lemma findById_update_first:
  "findById docs i = Some c \<Longrightarrow> cat_id d' = i \<Longrightarrow>
     findById (update_first (\<lambda>x. cat_id x = i) (\<lambda>x. d') docs) i = Some d'"
  by (induction docs) (auto simp: findById_def)

lemma cat_id_apply_update [simp]: "cat_id (apply_update n b d) = cat_id d"
  by (simp add: apply_update_def)

lemma findById_cat_id: "findById docs i = Some c \<Longrightarrow> cat_id c = i"
  by (auto simp: findById_def dest: find_Some_iff[THEN iffD1])

lemma findByIdAndUpdate_cases:
  assumes "findById docs i = Some c"
  shows "(\<exists>e. findByIdAndUpdate docs i b = Inl e) \<or>
         findByIdAndUpdate docs i b =
           Inr (Some (apply_update (fresh_oid docs) b c),
                update_first (\<lambda>x. cat_id x = i) (\<lambda>x. apply_update (fresh_oid docs) b c) docs)"
  using assms by (auto simp: findByIdAndUpdate_def Let_def split: option.splits)

lemma updateCategory_with_files:
  assumes "findById (categories w) i = Some c" and "files \<noteq> []"
  shows "\<exists>res w'. updateCategory w i b files = (res, w') \<and>
     (case res of
        Inl e \<Rightarrow> effects w' = effects w @ map MediaDestroy (asset_ids (images c)) \<and>
                 categories w' = categories w
      | Inr r \<Rightarrow> effects w' = effects w @ map MediaDestroy (asset_ids (images c)) @ [DbUpdate i] \<and>
                 (\<exists>d. payload r = PCategory (Some d) \<and> findById (categories w') i = Some d \<and>
                      images d = cast_images (fresh_oid (categories w)) (images_from_files b files)))"
proof -
  define w1 where "w1 = (if images c \<noteq> [] then destroy_images (images c) w else w)"
  define b1 where "b1 = b\<lparr>b_images := Some (images_from_files b files)\<rparr>"
  define n where "n = fresh_oid (categories w)"
  have e1: "effects w1 = effects w @ map MediaDestroy (asset_ids (images c))"
    by (simp add: w1_def destroy_images_effects)
  have c1: "categories w1 = categories w" by (simp add: w1_def)
  have upd: "updateCategory w i b files =
      (case findByIdAndUpdate (categories w) i b1 of
         Inl e \<Rightarrow> (Inl e, w1)
       | Inr (u, docs') \<Rightarrow>
           (Inr \<lparr>status = 200, message = ''Category updated successfully'', payload = PCategory u\<rparr>,
            w1\<lparr>categories := docs', effects := effects w1 @ [DbUpdate i]\<rparr>))"
    unfolding w1_def b1_def using assms by (simp add: updateCategory_def Let_def)
  have img: "images (apply_update n b1 c) = cast_images n (images_from_files b files)"
    by (simp add: apply_update_def b1_def)
  from findByIdAndUpdate_cases[OF assms(1), where b = b1] show ?thesis
  proof
    assume "\<exists>e. findByIdAndUpdate (categories w) i b1 = Inl e"
    then show ?thesis using upd e1 c1 by auto
  next
    assume ok: "findByIdAndUpdate (categories w) i b1 =
      Inr (Some (apply_update (fresh_oid (categories w)) b1 c),
           update_first (\<lambda>x. cat_id x = i) (\<lambda>x. apply_update (fresh_oid (categories w)) b1 c)
             (categories w))"
    have "findById (update_first (\<lambda>x. cat_id x = i) (\<lambda>x. apply_update n b1 c) (categories w)) i
        = Some (apply_update n b1 c)"
      using assms(1) by (rule findById_update_first) (simp add: findById_cat_id[OF assms(1)])
    then show ?thesis using upd ok e1 img unfolding n_def by simp
  qed
qed

lemma updateSubCategory_with_files:
  assumes "findById (categories w) i = Some c" and "files \<noteq> []"
  shows "\<exists>res w'. updateSubCategory w i b files = (res, w') \<and>
     (case res of
        Inl e \<Rightarrow> effects w' = effects w @ map MediaDestroy (asset_ids (images c)) \<and>
                 categories w' = categories w
      | Inr r \<Rightarrow> effects w' = effects w @ map MediaDestroy (asset_ids (images c)) @ [DbUpdate i] \<and>
                 (\<exists>d. payload r = PSubCategory (Some d) \<and> findById (categories w') i = Some d \<and>
                      images d = cast_images (fresh_oid (categories w)) (images_from_files b files)))"
proof -
  define w1 where "w1 = (if images c \<noteq> [] then destroy_images (images c) w else w)"
  define b1 where "b1 = b\<lparr>b_images := Some (images_from_files b files)\<rparr>"
  define n where "n = fresh_oid (categories w)"
  have e1: "effects w1 = effects w @ map MediaDestroy (asset_ids (images c))"
    by (simp add: w1_def destroy_images_effects)
  have c1: "categories w1 = categories w" by (simp add: w1_def)
  have upd: "updateSubCategory w i b files =
      (case findByIdAndUpdate (categories w) i b1 of
         Inl e \<Rightarrow> (Inl e, w1)
       | Inr (u, docs') \<Rightarrow>
           (Inr \<lparr>status = 200, message = ''Subcategory updated successfully'', payload = PSubCategory u\<rparr>,
            w1\<lparr>categories := docs', effects := effects w1 @ [DbUpdate i]\<rparr>))"
    unfolding w1_def b1_def using assms by (simp add: updateSubCategory_def Let_def)
  have img: "images (apply_update n b1 c) = cast_images n (images_from_files b files)"
    by (simp add: apply_update_def b1_def)
  from findByIdAndUpdate_cases[OF assms(1), where b = b1] show ?thesis
  proof
    assume "\<exists>e. findByIdAndUpdate (categories w) i b1 = Inl e"
    then show ?thesis using upd e1 c1 by auto
  next
    assume ok: "findByIdAndUpdate (categories w) i b1 =
      Inr (Some (apply_update (fresh_oid (categories w)) b1 c),
           update_first (\<lambda>x. cat_id x = i) (\<lambda>x. apply_update (fresh_oid (categories w)) b1 c)
             (categories w))"
    have "findById (update_first (\<lambda>x. cat_id x = i) (\<lambda>x. apply_update n b1 c) (categories w)) i
        = Some (apply_update n b1 c)"
      using assms(1) by (rule findById_update_first) (simp add: findById_cat_id[OF assms(1)])
    then show ?thesis using upd ok e1 img unfolding n_def by simp
  qed
qed

text \<open>An image built from an uploaded file has no \<^verbatim>\<open>_id\<close>; the cast gives each one.\<close>

lemma images_from_files_new: "\<forall>img \<in> set (images_from_files b files). image_oid img = None"
  by (simp add: images_from_files_def)

lemma string_of_nat_not_Nil: "string_of_nat n \<noteq> []"
  by (subst string_of_nat.simps) simp

lemma asset_ids_stored:
  "asset_ids imgs =
     concat (map (\<lambda>img. case image_oid img of None \<Rightarrow> [] | Some i \<Rightarrow> [id_string i]) imgs)"
  by (induction imgs)
     (auto simp: asset_ids_def img_id_def id_string_def string_of_nat_not_Nil split: option.splits)

lemma asset_ids_cast:
  "asset_ids (cast_images n (images_from_files b files)) = map id_string [n ..< n + length files]"
proof -
  from cast_images_new[of "images_from_files b files" n, OF images_from_files_new]
  have m: "map image_oid (cast_images n (images_from_files b files)) = map Some [n ..< n + length files]"
    by (simp add: images_from_files_def)
  have "asset_ids imgs = map id_string ks" if "map image_oid imgs = map Some ks" for imgs ks
    using that by (induction imgs arbitrary: ks) (auto simp: asset_ids_stored)
  from this[OF m] show ?thesis .
qed

lemmas media_defs = img_id_def id_string_def string_of_nat.simps digit_char_def fresh_oid_def
  stored_oids_def

text \<open>
  C4.  An update of an existing category with new files calls the media store's deletion
  once for each stored image whose \<^verbatim>\<open>id\<close> is truthy, in their order and with that
  \<^verbatim>\<open>id\<close>, and before the write; every image that went through the schema has such an
  \<^verbatim>\<open>id\<close>.  When the write is accepted it follows these calls, and the stored images
  are then exactly the images built from the uploaded files, one per file in the order of
  the files, each with the new \<^verbatim>\<open>_id\<close> that the store gave it (which the next update
  or delete passes to the media store); nothing of the old images is kept.  When the write
  is rejected the deletions have been issued and the collection is unchanged.
\<close>

theorem update_replaces_images:
  assumes "findById (categories w) i = Some c" and "files \<noteq> []"
  shows "\<exists>res w'. updateCategory w i b files = (res, w') \<and>
     (case res of
        Inl e \<Rightarrow> effects w' = effects w @ map MediaDestroy (asset_ids (images c)) \<and>
                 categories w' = categories w
      | Inr r \<Rightarrow> effects w' = effects w @ map MediaDestroy (asset_ids (images c)) @ [DbUpdate i] \<and>
                 (\<exists>d. payload r = PCategory (Some d) \<and> findById (categories w') i = Some d \<and>
                      map (\<lambda>img. img\<lparr>image_oid := None\<rparr>) (images d) = images_from_files b files \<and>
                      map url (images d) = map path files \<and>
                      map itype (images d) = map fieldname files \<and>
                      map image_oid (images d) =
                        map Some [fresh_oid (categories w) ..< fresh_oid (categories w) + length files] \<and>
                      asset_ids (images d) =
                        map id_string [fresh_oid (categories w) ..< fresh_oid (categories w) + length files])) \<and>
     asset_ids (images c) =
       concat (map (\<lambda>img. case image_oid img of None \<Rightarrow> [] | Some k \<Rightarrow> [id_string k]) (images c))"
proof -
  let ?n = "fresh_oid (categories w)"
  let ?new = "cast_images ?n (images_from_files b files)"
  from cast_images_new[of "images_from_files b files" ?n, OF images_from_files_new]
  have strip: "map (\<lambda>img. img\<lparr>image_oid := None\<rparr>) ?new = images_from_files b files"
    and oids: "map image_oid ?new = map Some [?n ..< ?n + length files]"
    by (simp_all add: images_from_files_def)
  have fields: "map url ?new = map path files" "map itype ?new = map fieldname files"
    by (simp_all add: images_from_files_def comp_def)
  from updateCategory_with_files[OF assms, of b] obtain res w' where
    u: "updateCategory w i b files = (res, w')" and
    c: "case res of
        Inl e \<Rightarrow> effects w' = effects w @ map MediaDestroy (asset_ids (images c)) \<and>
                 categories w' = categories w
      | Inr r \<Rightarrow> effects w' = effects w @ map MediaDestroy (asset_ids (images c)) @ [DbUpdate i] \<and>
                 (\<exists>d. payload r = PCategory (Some d) \<and> findById (categories w') i = Some d \<and>
                      images d = ?new)"
    by blast
  show ?thesis
  proof (cases res)
    case (Inl e)
    with u c asset_ids_stored[of "images c"] show ?thesis by simp
  next
    case (Inr r)
    with c obtain d where d: "payload r = PCategory (Some d)" "findById (categories w') i = Some d"
      "images d = ?new"
      and e: "effects w' = effects w @ map MediaDestroy (asset_ids (images c)) @ [DbUpdate i]"
      by auto
    from d(3) strip oids fields asset_ids_cast[of ?n b files]
    have "map (\<lambda>img. img\<lparr>image_oid := None\<rparr>) (images d) = images_from_files b files \<and>
          map url (images d) = map path files \<and> map itype (images d) = map fieldname files \<and>
          map image_oid (images d) = map Some [?n ..< ?n + length files] \<and>
          asset_ids (images d) = map id_string [?n ..< ?n + length files]"
      by simp
    with u Inr d(1,2) e asset_ids_stored[of "images c"] show ?thesis by auto
  qed
qed

theorem update_replaces_images_witness:
  "createCategory slugify catalogue 1 sandals_body [new_banner, new_thumb] =
     (Inr \<lparr>status = 201, message = ''Category created successfully'',
           payload = PCategory (Some sandals)\<rparr>, with_sandals) \<and>
   findById (categories with_sandals) 13 = Some sandals \<and> [new_thumb] \<noteq> [] \<and>
   (\<exists>r w'. updateCategory with_sandals 13 (empty_body\<lparr>b_altText := Some ''new''\<rparr>) [new_thumb]
        = (Inr r, w') \<and>
      effects w' = [DbInsert 13, MediaDestroy ''14'', MediaDestroy ''15'', DbUpdate 13] \<and>
      (\<exists>d. payload r = PCategory (Some d) \<and> findById (categories w') 13 = Some d \<and>
           images d = [\<lparr>url = ''https://media/new-thumb.png'', altText = ''new'',
                         itype = ''thumbnail'', image_oid = Some 16\<rparr>]))"
proof -
  let ?b = "empty_body\<lparr>b_altText := Some ''new''\<rparr>"
  have h1: "findById (categories with_sandals) 13 = Some sandals"
    by (simp add: with_sandals_def catalogue_defs sandals_def findById_def)
  have h2: "[new_thumb] \<noteq> []" by simp
  have ids: "asset_ids (images sandals) = [''14'', ''15'']"
    by (simp add: asset_ids_def sandals_def media_defs)
  have eff: "effects with_sandals = [DbInsert 13]" by (simp add: with_sandals_def)
  have run: "\<exists>r w' d. updateCategory with_sandals 13 ?b [new_thumb] = (Inr r, w') \<and>
      payload r = PCategory (Some d) \<and>
      images d = [\<lparr>url = ''https://media/new-thumb.png'', altText = ''new'',
                         itype = ''thumbnail'', image_oid = Some 16\<rparr>]"
    by (simp add: with_sandals_def catalogue_defs sandals_def upload_defs update_defs media_defs
        asset_ids_def)
  from update_replaces_images[OF h1 h2, of ?b]
  obtain res w' where u: "updateCategory with_sandals 13 ?b [new_thumb] = (res, w')"
    and c: "case res of
        Inl e \<Rightarrow> effects w' = effects with_sandals @ map MediaDestroy (asset_ids (images sandals)) \<and>
                 categories w' = categories with_sandals
      | Inr r \<Rightarrow> effects w' = effects with_sandals @ map MediaDestroy (asset_ids (images sandals))
                   @ [DbUpdate 13] \<and>
                 (\<exists>d. payload r = PCategory (Some d) \<and> findById (categories w') 13 = Some d \<and>
                      map (\<lambda>img. img\<lparr>image_oid := None\<rparr>) (images d) = images_from_files ?b [new_thumb] \<and>
                      map url (images d) = map path [new_thumb] \<and>
                      map itype (images d) = map fieldname [new_thumb] \<and>
                      map image_oid (images d) =
                        map Some [fresh_oid (categories with_sandals) ..<
                                  fresh_oid (categories with_sandals) + length [new_thumb]] \<and>
                      asset_ids (images d) =
                        map id_string [fresh_oid (categories with_sandals) ..<
                                       fresh_oid (categories with_sandals) + length [new_thumb]])"
    by blast
  from run u obtain r d0 where r: "res = Inr r" and p0: "payload r = PCategory (Some d0)"
    and i0: "images d0 = [\<lparr>url = ''https://media/new-thumb.png'', altText = ''new'',
                         itype = ''thumbnail'', image_oid = Some 16\<rparr>]" by auto
  from c r have e: "effects w' = [DbInsert 13, MediaDestroy ''14'', MediaDestroy ''15'', DbUpdate 13]"
    and "\<exists>d. payload r = PCategory (Some d) \<and> findById (categories w') 13 = Some d"
    unfolding ids eff by auto
  with p0 have "findById (categories w') 13 = Some d0" by auto
  with u r e p0 i0 h1 h2 create_sandals show ?thesis by blast
qed

text \<open>
  C8.  An update or a delete of a category or subcategory whose id no stored document has
  fails with the 404 error and leaves the world as it was: no write, no deletion in the
  media store.  A fetch by a slug that no stored document has fails with the 404 error.
\<close>

theorem not_found_is_effect_free:
  "(i \<notin> cat_id ` set (categories w) \<longrightarrow>
      updateCategory w i b files = (Inl (AppError ''No category found with that ID'' 404), w) \<and>
      deleteCategory w i = (Inl (AppError ''No category found with that ID'' 404), w) \<and>
      updateSubCategory w i b files = (Inl (AppError ''No subcategory found with that ID'' 404), w) \<and>
      deleteSubCategory w i = (Inl (AppError ''No subcategory found with that ID'' 404), w)) \<and>
   (Some s \<notin> slug ` set (categories w) \<longrightarrow>
      getCategory w s = Some (Inl (AppError ''No category found with that slug'' 404)))"
  by (simp add: updateCategory_def deleteCategory_def updateSubCategory_def deleteSubCategory_def
      getCategory_def findById_None_iff[symmetric] findOne_slug_None_iff[symmetric])

theorem not_found_is_effect_free_witness:
  "9 \<notin> cat_id ` set (categories catalogue) \<and>
   updateCategory catalogue 9 (empty_body\<lparr>b_name := Some ''Hats''\<rparr>) [new_banner]
     = (Inl (AppError ''No category found with that ID'' 404), catalogue) \<and>
   deleteCategory catalogue 9 = (Inl (AppError ''No category found with that ID'' 404), catalogue) \<and>
   updateSubCategory catalogue 9 (empty_body\<lparr>b_name := Some ''Hats''\<rparr>) [new_banner]
     = (Inl (AppError ''No subcategory found with that ID'' 404), catalogue) \<and>
   deleteSubCategory catalogue 9
     = (Inl (AppError ''No subcategory found with that ID'' 404), catalogue) \<and>
   Some ''hats'' \<notin> slug ` set (categories catalogue) \<and>
   getCategory catalogue ''hats'' = Some (Inl (AppError ''No category found with that slug'' 404))"
proof -
  have h1: "9 \<notin> cat_id ` set (categories catalogue)" by (simp add: catalogue_defs upload_defs)
  have h2: "Some ''hats'' \<notin> slug ` set (categories catalogue)" by (simp add: catalogue_defs upload_defs)
  from not_found_is_effect_free[of 9 catalogue "empty_body\<lparr>b_name := Some ''Hats''\<rparr>"
      "[new_banner]" "''hats''"] h1 h2
  show ?thesis by blast
qed

section \<open>Images built from uploaded files\<close>

text \<open>
  \<^verbatim>\<open>req.body.altText || ""\<close>: the one alternative text a request carries.
\<close>

definition request_altText :: "body \<Rightarrow> string" where
  "request_altText b = (case b_altText b of None \<Rightarrow> [] | Some a \<Rightarrow> a)"

lemma images_from_files_altText:
  "img \<in> set (images_from_files b files) \<Longrightarrow> altText img = request_altText b"
  by (auto simp: images_from_files_def request_altText_def split: option.splits)

lemma Category_create_images:
  "Category_create createSlug docs b = Inr d \<Longrightarrow>
     images d = (case b_images b of None \<Rightarrow> [] | Some imgs \<Rightarrow> cast_images (Suc (fresh_oid docs)) imgs)"
  by (auto simp: Category_create_def Let_def pre_save_def split: option.splits if_splits)

lemma cast_built_images:
  assumes "images d = cast_images n (images_from_files b files)"
  shows "length (images d) = length files \<and>
         (\<forall>img \<in> set (images d). altText img = request_altText b)"
proof -
  have "set (map altText (images d)) = set (map altText (images_from_files b files))"
    by (simp add: assms)
  then have "altText ` set (images d) = altText ` set (images_from_files b files)" by simp
  then have "\<forall>img \<in> set (images d). altText img = request_altText b"
    using images_from_files_altText[of _ b files] by (metis imageE imageI)
  moreover have "length (images d) = length files" by (simp add: assms images_from_files_def)
  ultimately show ?thesis by simp
qed

text \<open>
  C10.  All images built from the files of one request carry the same alternative text:
  the request's \<^verbatim>\<open>altText\<close> when it has one, the empty string otherwise.  This holds
  for the images that the four writing handlers store.
\<close>

theorem altText_shared_by_batch:
  assumes "files \<noteq> []"
  shows "(\<forall>img \<in> set (images_from_files b files). altText img = request_altText b) \<and>
    (\<forall>r w'. createCategory createSlug w uid b files = (Inr r, w') \<longrightarrow>
       (\<exists>d. payload r = PCategory (Some d) \<and> length (images d) = length files \<and>
            (\<forall>img \<in> set (images d). altText img = request_altText b))) \<and>
    (\<forall>r w'. createSubCategory createSlug w pid uid b files = (Inr r, w') \<longrightarrow>
       (\<exists>d. payload r = PSubCategory (Some d) \<and> length (images d) = length files \<and>
            (\<forall>img \<in> set (images d). altText img = request_altText b))) \<and>
    (\<forall>r w'. updateCategory w i b files = (Inr r, w') \<longrightarrow>
       (\<exists>d. payload r = PCategory (Some d) \<and> length (images d) = length files \<and>
            (\<forall>img \<in> set (images d). altText img = request_altText b))) \<and>
    (\<forall>r w'. updateSubCategory w i b files = (Inr r, w') \<longrightarrow>
       (\<exists>d. payload r = PSubCategory (Some d) \<and> length (images d) = length files \<and>
            (\<forall>img \<in> set (images d). altText img = request_altText b)))"
proof (intro conjI allI impI)
  show "\<forall>img \<in> set (images_from_files b files). altText img = request_altText b"
    by (simp add: images_from_files_altText)
next
  fix r w' assume c: "createCategory createSlug w uid b files = (Inr r, w')"
  show "\<exists>d. payload r = PCategory (Some d) \<and> length (images d) = length files \<and>
            (\<forall>img \<in> set (images d). altText img = request_altText b)"
  proof -
    from c assms obtain d where d: "Category_create createSlug (categories w)
        (b\<lparr>b_images := Some (images_from_files b files), b_createdBy := Some uid\<rparr>) = Inr d"
      and r: "payload r = PCategory (Some d)"
      by (auto simp: createCategory_def Let_def split: sum.splits)
    from Category_create_images[OF d]
    have "images d = cast_images (Suc (fresh_oid (categories w))) (images_from_files b files)"
      by simp
    from cast_built_images[OF this] r show ?thesis by blast
  qed
next
  fix r w' assume c: "createSubCategory createSlug w pid uid b files = (Inr r, w')"
  show "\<exists>d. payload r = PSubCategory (Some d) \<and> length (images d) = length files \<and>
            (\<forall>img \<in> set (images d). altText img = request_altText b)"
  proof -
    have same: "images_from_files (b\<lparr>b_parent := Some (Some pid), b_createdBy := Some uid\<rparr>) files
        = images_from_files b files"
      by (simp add: images_from_files_def)
    from c assms obtain d where d: "Category_create createSlug (categories w)
        (b\<lparr>b_parent := Some (Some pid), b_createdBy := Some uid,
           b_images := Some (images_from_files b files)\<rparr>) = Inr d"
      and r: "payload r = PSubCategory (Some d)"
      by (auto simp: createSubCategory_def Let_def same split: sum.splits)
    from Category_create_images[OF d]
    have "images d = cast_images (Suc (fresh_oid (categories w))) (images_from_files b files)"
      by simp
    from cast_built_images[OF this] r show ?thesis by blast
  qed
next
  fix r w' assume u: "updateCategory w i b files = (Inr r, w')"
  show "\<exists>d. payload r = PCategory (Some d) \<and> length (images d) = length files \<and>
            (\<forall>img \<in> set (images d). altText img = request_altText b)"
  proof -
    from u obtain c where c: "findById (categories w) i = Some c"
      by (auto simp: updateCategory_def split: option.splits)
    from updateCategory_with_files[OF c assms, of b] u
    obtain d where "payload r = PCategory (Some d)"
      "images d = cast_images (fresh_oid (categories w)) (images_from_files b files)"
      by auto
    with cast_built_images[of d] show ?thesis by blast
  qed
next
  fix r w' assume u: "updateSubCategory w i b files = (Inr r, w')"
  show "\<exists>d. payload r = PSubCategory (Some d) \<and> length (images d) = length files \<and>
            (\<forall>img \<in> set (images d). altText img = request_altText b)"
  proof -
    from u obtain c where c: "findById (categories w) i = Some c"
      by (auto simp: updateSubCategory_def split: option.splits)
    from updateSubCategory_with_files[OF c assms, of b] u
    obtain d where "payload r = PSubCategory (Some d)"
      "images d = cast_images (fresh_oid (categories w)) (images_from_files b files)"
      by auto
    with cast_built_images[of d] show ?thesis by blast
  qed
qed

theorem altText_shared_by_batch_witness:
  "[new_banner, new_thumb] \<noteq> [] \<and>
   request_altText sandals_body = ''summer'' \<and>
   fst (createCategory slugify catalogue 1 sandals_body [new_banner, new_thumb])
     = Inr \<lparr>status = 201, message = ''Category created successfully'',
             payload = PCategory (Some sandals)\<rparr> \<and>
   map altText (images sandals) = [''summer'', ''summer''] \<and>
   list_all (\<lambda>img. altText img = request_altText sandals_body)
     (images_from_files sandals_body [new_banner, new_thumb])"
proof -
  have h: "[new_banner, new_thumb] \<noteq> []" by simp
  from altText_shared_by_batch[OF h, of sandals_body]
  have "\<forall>img \<in> set (images_from_files sandals_body [new_banner, new_thumb]).
      altText img = request_altText sandals_body" by blast
  then have "list_all (\<lambda>img. altText img = request_altText sandals_body)
     (images_from_files sandals_body [new_banner, new_thumb])" by (simp add: list_all_iff)
  moreover have "request_altText sandals_body = ''summer''"
    by (simp add: request_altText_def sandals_body_def empty_body_def)
  moreover have "map altText (images sandals) = [''summer'', ''summer'']" by (simp add: sandals_def)
  ultimately show ?thesis using create_sandals by simp
qed

section \<open>The slug on create and on update\<close>

lemma images_from_files_slug [simp]:
  "images_from_files (b\<lparr>b_slug := s\<rparr>) files = images_from_files b files"
  by (simp add: images_from_files_def)

lemma Category_create_cong:
  assumes "b_name b = b_name b'" "b_ctype b = b_ctype b'" "b_parent b = b_parent b'"
    "b_description b = b_description b'" "b_active b = b_active b'" "b_images b = b_images b'"
    "b_createdBy b = b_createdBy b'"
  shows "Category_create createSlug docs b = Category_create createSlug docs b'"
  using assms by (simp add: Category_create_def Let_def pre_save_def split: option.splits)

lemma fresh_oid_new: "k \<in> set (stored_oids docs) \<Longrightarrow> k < fresh_oid docs"
proof -
  assume k: "k \<in> set (stored_oids docs)"
  have "fold max (stored_oids docs) 0 = Max (set (0 # stored_oids docs))"
    by (simp only: Max.set_eq_fold)
  moreover from k have "k \<le> Max (set (0 # stored_oids docs))" by (intro Max_ge) auto
  ultimately show ?thesis by (simp add: fresh_oid_def)
qed

lemma fresh_oid_fresh: "x \<in> set docs \<Longrightarrow> cat_id x < fresh_oid docs"
  by (rule fresh_oid_new) (auto simp: stored_oids_def)

lemma Category_create_cat_id:
  "Category_create createSlug docs b = Inr d \<Longrightarrow> cat_id d = fresh_oid docs"
  by (auto simp: Category_create_def Let_def pre_save_def split: option.splits if_splits)

lemma findById_append_fresh:
  "cat_id d = fresh_oid docs \<Longrightarrow> findById (docs @ [d]) (cat_id d) = Some d"
proof -
  assume f: "cat_id d = fresh_oid docs"
  have "find P (xs @ [d]) = Some d" if "P d" "\<forall>x \<in> set xs. \<not> P x" for P and xs :: "category list"
    using that by (induction xs) auto
  from this[of "\<lambda>x. cat_id x = cat_id d" docs] f fresh_oid_fresh[of _ docs]
  show ?thesis by (fastforce simp: findById_def)
qed

lemma created_document:
  assumes "Category_create createSlug docs b = Inr d"
  shows "findById (docs @ [d]) (cat_id d) = Some d \<and>
         slug d = Some (slug_while docs (createSlug (name d)) (createSlug (name d)) 1) \<and>
         (\<exists>s. slug d = Some s \<and> first_free_slug docs (createSlug (name d)) s)"
proof -
  from Category_create_cat_id[OF assms] have "findById (docs @ [d]) (cat_id d) = Some d"
    by (rule findById_append_fresh)
  moreover from Category_create_Inr[OF assms]
  have s: "slug d = Some (slug_while docs (createSlug (name d)) (createSlug (name d)) 1)" by blast
  moreover from s hook_assigns_first_free_slug[of createSlug docs d]
  have "\<exists>s. slug d = Some s \<and> first_free_slug docs (createSlug (name d)) s"
    by (simp add: pre_save_def)
  ultimately show ?thesis by blast
qed

definition sale_body :: body where
  "sale_body = empty_body\<lparr>b_name := Some ''Sandals''\<rparr>"

definition sale :: category where
  "sale = \<lparr>cat_id = 13, name = ''Sandals'', slug = Some ''sandals'', ctype = ''normal'',
      parent = Some 1, description = None, active = True, images = [], createdBy = 1\<rparr>"

lemma create_sale:
  "createSubCategory slugify catalogue 1 1 sale_body [] =
     (Inr \<lparr>status = 201, message = ''Subcategory created successfully'',
           payload = PSubCategory (Some sale)\<rparr>,
      catalogue\<lparr>categories := [shoes, boots, ankle_boots, sale], effects := [DbInsert 13]\<rparr>)"
  by (simp add: createSubCategory_def create_defs catalogue_defs sale_body_def sale_def
      slugify_Sandals)

text \<open>
  C6, as amended.  A creation of a category or of a subcategory does not depend on a slug
  in the request body: with and without it the handler gives the same response and the same
  world.  The created document is stored, and its slug is the one that the
  \<^verbatim>\<open>pre("save")\<close> hook derives from its name: the slugified name, or the slugified
  name with the first free suffix.
\<close>

theorem created_slug_ignores_client_slug:
  "createCategory createSlug w uid (b\<lparr>b_slug := s\<rparr>) files = createCategory createSlug w uid b files \<and>
   createSubCategory createSlug w pid uid (b\<lparr>b_slug := s\<rparr>) files
     = createSubCategory createSlug w pid uid b files \<and>
   (\<forall>r w'. createCategory createSlug w uid b files = (Inr r, w') \<longrightarrow>
      (\<exists>d. payload r = PCategory (Some d) \<and> findById (categories w') (cat_id d) = Some d \<and>
           slug d = Some (slug_while (categories w) (createSlug (name d)) (createSlug (name d)) 1) \<and>
           (\<exists>t. slug d = Some t \<and> first_free_slug (categories w) (createSlug (name d)) t))) \<and>
   (\<forall>r w'. createSubCategory createSlug w pid uid b files = (Inr r, w') \<longrightarrow>
      (\<exists>d. payload r = PSubCategory (Some d) \<and> findById (categories w') (cat_id d) = Some d \<and>
           slug d = Some (slug_while (categories w) (createSlug (name d)) (createSlug (name d)) 1) \<and>
           (\<exists>t. slug d = Some t \<and> first_free_slug (categories w) (createSlug (name d)) t)))"
proof (intro conjI allI impI)
  have e: "Category_create createSlug (categories w)
       ((if files \<noteq> [] then (b\<lparr>b_slug := s\<rparr>)\<lparr>b_images := Some (images_from_files (b\<lparr>b_slug := s\<rparr>) files)\<rparr>
         else b\<lparr>b_slug := s\<rparr>)\<lparr>b_createdBy := Some uid\<rparr>)
     = Category_create createSlug (categories w)
       ((if files \<noteq> [] then b\<lparr>b_images := Some (images_from_files b files)\<rparr> else b)
          \<lparr>b_createdBy := Some uid\<rparr>)"
    by (rule Category_create_cong) simp_all
  show "createCategory createSlug w uid (b\<lparr>b_slug := s\<rparr>) files = createCategory createSlug w uid b files"
    unfolding createCategory_def Let_def e ..
next
  have e: "Category_create createSlug (categories w)
       (if files \<noteq> []
        then (b\<lparr>b_slug := s\<rparr>)\<lparr>b_parent := Some (Some pid), b_createdBy := Some uid\<rparr>
          \<lparr>b_images := Some (images_from_files
             ((b\<lparr>b_slug := s\<rparr>)\<lparr>b_parent := Some (Some pid), b_createdBy := Some uid\<rparr>) files)\<rparr>
        else (b\<lparr>b_slug := s\<rparr>)\<lparr>b_parent := Some (Some pid), b_createdBy := Some uid\<rparr>)
     = Category_create createSlug (categories w)
       (if files \<noteq> []
        then b\<lparr>b_parent := Some (Some pid), b_createdBy := Some uid\<rparr>
          \<lparr>b_images := Some (images_from_files
             (b\<lparr>b_parent := Some (Some pid), b_createdBy := Some uid\<rparr>) files)\<rparr>
        else b\<lparr>b_parent := Some (Some pid), b_createdBy := Some uid\<rparr>)"
    by (rule Category_create_cong) (simp_all add: images_from_files_def)
  show "createSubCategory createSlug w pid uid (b\<lparr>b_slug := s\<rparr>) files
     = createSubCategory createSlug w pid uid b files"
    unfolding createSubCategory_def Let_def e ..
next
  fix r w' assume c: "createCategory createSlug w uid b files = (Inr r, w')"
  then obtain b' d where d: "Category_create createSlug (categories w) b' = Inr d"
    and r: "payload r = PCategory (Some d)" and w': "categories w' = categories w @ [d]"
    by (auto simp: createCategory_def Let_def split: sum.splits)
  from created_document[OF d] r w'
  show "\<exists>d. payload r = PCategory (Some d) \<and> findById (categories w') (cat_id d) = Some d \<and>
           slug d = Some (slug_while (categories w) (createSlug (name d)) (createSlug (name d)) 1) \<and>
           (\<exists>t. slug d = Some t \<and> first_free_slug (categories w) (createSlug (name d)) t)"
    by auto
next
  fix r w' assume c: "createSubCategory createSlug w pid uid b files = (Inr r, w')"
  then obtain b' d where d: "Category_create createSlug (categories w) b' = Inr d"
    and r: "payload r = PSubCategory (Some d)" and w': "categories w' = categories w @ [d]"
    by (auto simp: createSubCategory_def Let_def split: sum.splits)
  from created_document[OF d] r w'
  show "\<exists>d. payload r = PSubCategory (Some d) \<and> findById (categories w') (cat_id d) = Some d \<and>
           slug d = Some (slug_while (categories w) (createSlug (name d)) (createSlug (name d)) 1) \<and>
           (\<exists>t. slug d = Some t \<and> first_free_slug (categories w) (createSlug (name d)) t)"
    by auto
qed

theorem created_slug_ignores_client_slug_witness:
  "createCategory slugify catalogue 1 (sandals_body\<lparr>b_slug := Some ''my-own-slug''\<rparr>) [new_banner, new_thumb]
     = createCategory slugify catalogue 1 sandals_body [new_banner, new_thumb] \<and>
   fst (createCategory slugify catalogue 1 (sandals_body\<lparr>b_slug := Some ''my-own-slug''\<rparr>)
          [new_banner, new_thumb])
     = Inr \<lparr>status = 201, message = ''Category created successfully'',
             payload = PCategory (Some sandals)\<rparr> \<and>
   slug sandals = Some ''sandals'' \<and>
   first_free_slug (categories catalogue) ''sandals'' ''sandals'' \<and>
   createSubCategory slugify catalogue 1 1 (sale_body\<lparr>b_slug := Some ''my-own-slug''\<rparr>) []
     = (Inr \<lparr>status = 201, message = ''Subcategory created successfully'',
             payload = PSubCategory (Some sale)\<rparr>,
        catalogue\<lparr>categories := [shoes, boots, ankle_boots, sale], effects := [DbInsert 13]\<rparr>) \<and>
   slug sale = Some ''sandals'' \<and>
   first_free_slug (categories catalogue) (slugify (name sale)) ''sandals''"
proof -
  note thm1 = created_slug_ignores_client_slug[where createSlug = slugify and w = catalogue
      and uid = 1 and pid = 1 and b = sandals_body and s = "Some ''my-own-slug''"
      and files = "[new_banner, new_thumb]"]
  note thm2 = created_slug_ignores_client_slug[where createSlug = slugify and w = catalogue
      and uid = 1 and pid = 1 and b = sale_body and s = "Some ''my-own-slug''" and files = "[]"]
  from thm1 have same1: "createCategory slugify catalogue 1 (sandals_body\<lparr>b_slug := Some ''my-own-slug''\<rparr>)
      [new_banner, new_thumb] = createCategory slugify catalogue 1 sandals_body [new_banner, new_thumb]"
    by blast
  from thm1 create_sandals
  have "\<exists>d. PCategory (Some sandals) = PCategory (Some d) \<and>
      (\<exists>t. slug d = Some t \<and> first_free_slug (categories catalogue) (slugify (name d)) t)"
    by fastforce
  then have f1: "first_free_slug (categories catalogue) ''sandals'' ''sandals''"
    by (simp add: sandals_def slugify_Sandals)
  from thm2 have same2: "createSubCategory slugify catalogue 1 1 (sale_body\<lparr>b_slug := Some ''my-own-slug''\<rparr>) []
      = createSubCategory slugify catalogue 1 1 sale_body []" by blast
  from thm2 create_sale
  have "\<exists>d. PSubCategory (Some sale) = PSubCategory (Some d) \<and>
      (\<exists>t. slug d = Some t \<and> first_free_slug (categories catalogue) (slugify (name d)) t)"
    by fastforce
  then have f2: "first_free_slug (categories catalogue) (slugify (name sale)) ''sandals''"
    by (simp add: sale_def)
  from same1 same2 f1 f2 create_sandals create_sale show ?thesis
    by (simp add: sandals_def sale_def)
qed

text \<open>
  C6, as stated, fails on update: two updates of the same category that differ only in
  the slug of the body store two different slugs, each the one the client sent.
\<close>

theorem update_stores_client_slug_counterexample:
  "findById (categories (snd (updateCategory catalogue 2 (empty_body\<lparr>b_slug := Some ''mine''\<rparr>) []))) 2
     = Some (boots\<lparr>slug := Some ''mine''\<rparr>) \<and>
   findById (categories (snd (updateCategory catalogue 2 (empty_body\<lparr>b_slug := Some ''yours''\<rparr>) []))) 2
     = Some (boots\<lparr>slug := Some ''yours''\<rparr>) \<and>
   slug (boots\<lparr>slug := Some ''mine''\<rparr>) \<noteq> slug (boots\<lparr>slug := Some ''yours''\<rparr>)"
  by (simp add: catalogue_defs upload_defs update_defs)

text \<open>
  C5.  An update that changes the name goes through \<^verbatim>\<open>findByIdAndUpdate\<close> and not
  through the \<^verbatim>\<open>pre("save")\<close> hook: the renamed category keeps the slug of its old
  name.
\<close>

lemma rename_keeps_old_slug:
  "updateCategory catalogue 2 (empty_body\<lparr>b_name := Some ''Sandals''\<rparr>) [] =
     (Inr \<lparr>status = 200, message = ''Category updated successfully'',
           payload = PCategory (Some (boots\<lparr>name := ''Sandals''\<rparr>))\<rparr>,
      catalogue\<lparr>categories := [shoes, boots\<lparr>name := ''Sandals''\<rparr>, ankle_boots],
                effects := [DbUpdate 2]\<rparr>) \<and>
   slug (boots\<lparr>name := ''Sandals''\<rparr>) = Some ''boots'' \<and>
   slugify ''Sandals'' = ''sandals''"
  by (simp add: catalogue_defs upload_defs update_defs slugify_Sandals)

section \<open>Subcategory listing\<close>

definition first_page :: query where
  "first_page = \<lparr>q_type = None, q_parentId = None, q_sort = None, q_fields = None,
                  q_page = 1, q_limit = 10\<rparr>"

definition children_of_shoes :: query where
  "children_of_shoes = \<lparr>q_type = None, q_parentId = Some 1, q_sort = None, q_fields = None,
                         q_page = 2, q_limit = 1\<rparr>"

lemmas listing_defs = getAllSubCategories_def countDocuments_def Category_find_def matches_def
  APIFeatures_paginate_def APIFeatures_limitFields_def APIFeatures_sort_def find_user_def
  findById_def parent_view_of_def Let_def first_page_def

lemma set_paginate: "set (fst (APIFeatures_paginate q n xs)) \<subseteq> set xs"
  by (auto simp: APIFeatures_paginate_def dest: in_set_takeD in_set_dropD)

lemma l_doc_features:
  "l_doc ` set (APIFeatures_limitFields q (APIFeatures_sort q xs)) = l_doc ` set xs"
  by (auto simp: APIFeatures_limitFields_def APIFeatures_sort_def image_iff split: option.splits)

lemma features_entries:
  "set (fst (APIFeatures_paginate q n (APIFeatures_limitFields q (APIFeatures_sort q xs))))
     \<subseteq> (\<lambda>x. x\<lparr>l_fields := q_fields q\<rparr>) ` set xs"
proof -
  have "set (APIFeatures_limitFields q (APIFeatures_sort q xs)) = (\<lambda>x. x\<lparr>l_fields := q_fields q\<rparr>) ` set xs"
    by (simp add: APIFeatures_limitFields_def APIFeatures_sort_def split: option.splits)
  with set_paginate[of q n "APIFeatures_limitFields q (APIFeatures_sort q xs)"] show ?thesis by simp
qed

text \<open>
  C9.  A listing with a parent id in the query returns only stored documents whose parent
  is that id (the entry shows this parent populated: the document with that id, or null
  when no document has it any more), and reports as total the number of stored documents
  with that parent, whatever page and page size are requested.
\<close>

theorem filtered_listing_and_count:
  assumes "q_parentId q = Some pid"
  shows "\<exists>items pg. getAllSubCategories w q =
       Inr \<lparr>status = 200, message = ''Subcategories fetched successfully'',
             payload = PSubCategories items pg\<rparr> \<and>
     (\<forall>x \<in> set items. l_doc x \<in> set (categories w) \<and> parent (l_doc x) = Some pid \<and>
        l_parent x = map_option parent_view_of (findById (categories w) pid)) \<and>
     p_total pg = length (filter (\<lambda>d. parent d = Some pid) (categories w))"
proof -
  define found where "found = map (\<lambda>d. \<lparr>l_doc = d,
                              l_createdBy = find_user (users w) (createdBy d),
                              l_parent = (case parent d of
                                            None \<Rightarrow> None
                                          | Some p \<Rightarrow> map_option parent_view_of
                                                        (findById (categories w) p)),
                              l_fields = None\<rparr>)
                      (filter (\<lambda>d. parent d = Some pid) (categories w))"
  define n where "n = length (filter (\<lambda>d. parent d = Some pid) (categories w))"
  define feat where "feat = APIFeatures_paginate q n (APIFeatures_limitFields q (APIFeatures_sort q found))"
  have g: "getAllSubCategories w q = Inr \<lparr>status = 200, message = ''Subcategories fetched successfully'',
             payload = PSubCategories (fst feat) (snd feat)\<rparr>"
  proof -
    have m: "matches \<lparr>f_parent = Some (Some pid), f_ctype = None\<rparr> = (\<lambda>d. parent d = Some pid)"
      by (simp add: fun_eq_iff matches_def)
    show ?thesis using assms
      by (simp add: getAllSubCategories_def Let_def countDocuments_def Category_find_def m
          feat_def found_def n_def)
  qed
  have "l_doc x \<in> set (categories w) \<and> parent (l_doc x) = Some pid \<and>
        l_parent x = map_option parent_view_of (findById (categories w) pid)"
    if "x \<in> set (fst feat)" for x
  proof -
    from that features_entries[of q n found] obtain y where
      y: "y \<in> set found" "x = y\<lparr>l_fields := q_fields q\<rparr>" unfolding feat_def by blast
    from y(1) obtain d where "d \<in> set (categories w)" "parent d = Some pid"
      "l_doc y = d" "l_parent y = map_option parent_view_of (findById (categories w) pid)"
      by (auto simp: found_def)
    with y(2) show ?thesis by simp
  qed
  moreover have "p_total (snd feat) = n" by (simp add: feat_def APIFeatures_paginate_def)
  ultimately show ?thesis using g unfolding n_def by blast
qed

theorem filtered_listing_and_count_witness:
  "q_parentId children_of_shoes = Some 1 \<and>
   getAllSubCategories catalogue (children_of_shoes\<lparr>q_page := 1\<rparr>) =
       Inr \<lparr>status = 200, message = ''Subcategories fetched successfully'',
             payload = PSubCategories
               [\<lparr>l_doc = boots, l_createdBy = Some ann,
                  l_parent = Some (parent_view_of shoes), l_fields = None\<rparr>]
               \<lparr>p_total = 1, p_page = 1, p_limit = 1\<rparr>\<rparr> \<and>
   getAllSubCategories catalogue children_of_shoes =
       Inr \<lparr>status = 200, message = ''Subcategories fetched successfully'',
             payload = PSubCategories [] \<lparr>p_total = 1, p_page = 2, p_limit = 1\<rparr>\<rparr> \<and>
   length (filter (\<lambda>d. parent d = Some 1) (categories catalogue)) = 1"
proof -
  have h: "q_parentId children_of_shoes = Some 1" by (simp add: children_of_shoes_def)
  from filtered_listing_and_count[OF h, of catalogue]
  obtain items pg where "getAllSubCategories catalogue children_of_shoes =
       Inr \<lparr>status = 200, message = ''Subcategories fetched successfully'',
             payload = PSubCategories items pg\<rparr>"
    and "p_total pg = length (filter (\<lambda>d. parent d = Some 1) (categories catalogue))"
    by blast
  moreover have "getAllSubCategories catalogue children_of_shoes =
       Inr \<lparr>status = 200, message = ''Subcategories fetched successfully'',
             payload = PSubCategories [] \<lparr>p_total = 1, p_page = 2, p_limit = 1\<rparr>\<rparr>"
    by (simp add: listing_defs catalogue_defs upload_defs children_of_shoes_def)
  moreover have "getAllSubCategories catalogue (children_of_shoes\<lparr>q_page := 1\<rparr>) =
       Inr \<lparr>status = 200, message = ''Subcategories fetched successfully'',
             payload = PSubCategories
               [\<lparr>l_doc = boots, l_createdBy = Some ann,
                  l_parent = Some (parent_view_of shoes), l_fields = None\<rparr>]
               \<lparr>p_total = 1, p_page = 1, p_limit = 1\<rparr>\<rparr>"
    by (simp add: listing_defs catalogue_defs upload_defs children_of_shoes_def)
  ultimately show ?thesis using h by auto
qed

text \<open>
  C7.  Without a parent id in the query the filter is empty: the listing returns every
  category, the top-level ones included.
\<close>

lemma listing_without_filter_returns_top_level:
  "\<exists>items pg. getAllSubCategories catalogue first_page =
       Inr \<lparr>status = 200, message = ''Subcategories fetched successfully'',
             payload = PSubCategories items pg\<rparr> \<and>
     map l_doc items = [shoes, boots, ankle_boots] \<and> parent shoes = None \<and> p_total pg = 3"
  by (simp add: listing_defs catalogue_defs upload_defs)

end
